theory Spec2Isabelle
  imports Main "HOL-Library.Word" "HOL-Library.Sublist"
begin

text \<open>
  The chapter parser of \<^verbatim>\<open>src/index.js\<close>: the strings and the regular
  expressions of JavaScript as far as the program uses them, the timestamp
  extractor \<^verbatim>\<open>parseFlexibleTimestamps\<close>, the parser factory
  \<^verbatim>\<open>makeChapterParser\<close> with its six instances, and the exported cascade
  \<^verbatim>\<open>parseYouTubeChapters\<close>; then the properties of the matcher and of the
  patterns, and the claims about the program.
\<close>

section \<open>Strings and character classes\<close>

text \<open>
  A JavaScript string is a sequence of 16-bit code units. None of the regular
  expressions of \<^verbatim>\<open>src/index.js\<close> carries the \<^verbatim>\<open>u\<close> flag, and
  \<^verbatim>\<open>split\<close>, \<^verbatim>\<open>trim\<close> and \<^verbatim>\<open>replace\<close> all work on code units, so a
  string is modelled as a list of 16-bit words. \<open>js\<close> turns an Isabelle
  literal (code units below 256) into such a string.
\<close>

type_synonym jschar = "16 word"

type_synonym jsstring = "jschar list"

definition js :: "string \<Rightarrow> jsstring" where
  "js s = map (\<lambda>c. of_nat (of_char c)) s"

definition chr :: "string \<Rightarrow> jschar" where
  "chr s = (case js s of [] \<Rightarrow> 0 | c # _ \<Rightarrow> c)"

text \<open>The character classes of ECMAScript: \<^verbatim>\<open>\d\<close>, the LineTerminator
  production (what \<^verbatim>\<open>.\<close> refuses and where \<^verbatim>\<open>^\<close> and \<^verbatim>\<open>$\<close> match
  under the \<^verbatim>\<open>m\<close> flag), the WhiteSpace production, and \<^verbatim>\<open>\s\<close>, which is
  their union and also what \<^verbatim>\<open>trim\<close> removes.\<close>

definition is_digit :: "jschar \<Rightarrow> bool" where
  "is_digit c = (0x30 \<le> c \<and> c \<le> 0x39)"

definition is_line_terminator :: "jschar \<Rightarrow> bool" where
  "is_line_terminator c = (c = 0x0A \<or> c = 0x0D \<or> c = 0x2028 \<or> c = 0x2029)"

definition is_white_space :: "jschar \<Rightarrow> bool" where
  "is_white_space c =
     (c = 0x09 \<or> c = 0x0B \<or> c = 0x0C \<or> c = 0x20 \<or> c = 0xA0 \<or> c = 0x1680
      \<or> (0x2000 \<le> c \<and> c \<le> 0x200A) \<or> c = 0x202F \<or> c = 0x205F \<or> c = 0x3000
      \<or> c = 0xFEFF)"

definition is_space :: "jschar \<Rightarrow> bool" where
  "is_space c = (is_white_space c \<or> is_line_terminator c)"

text \<open>\<^verbatim>\<open>String.prototype.trim\<close>.\<close>

definition trim :: "jsstring \<Rightarrow> jsstring" where
  "trim s = rev (dropWhile is_space (rev (dropWhile is_space s)))"

text \<open>\<^verbatim>\<open>description.split('\n')\<close>: the pieces between line feeds; the empty
  string splits into one empty piece.\<close>

primrec split_lf :: "jsstring \<Rightarrow> jsstring list" where
  "split_lf [] = [[]]"
| "split_lf (c # cs) =
     (if c = 0x0A then [] # split_lf cs
      else (case split_lf cs of [] \<Rightarrow> [[c]] | l # ls \<Rightarrow> (c # l) # ls))"

text \<open>\<^verbatim>\<open>skipEmptyLines\<close> (lines 86-88).\<close>

definition skipEmptyLines :: "jsstring \<Rightarrow> jsstring list" where
  "skipEmptyLines description = filter (\<lambda>line. trim line \<noteq> []) (split_lf description)"

section \<open>Regular expressions\<close>

text \<open>
  The syntax of the patterns the program uses. Capture groups carry their
  number (the position of their opening parenthesis, from 1); \<^verbatim>\<open>(?:...)\<close> is
  plain nesting. \<open>Opt\<close> is the greedy \<^verbatim>\<open>?\<close>, \<open>Star\<close> the greedy
  \<^verbatim>\<open>*\<close>, \<open>Lazy\<close> the reluctant \<^verbatim>\<open>*?\<close>; \<open>Digit\<close>, \<open>Space\<close> and
  \<open>Dot\<close> are \<^verbatim>\<open>\d\<close>, \<^verbatim>\<open>\s\<close> and \<^verbatim>\<open>.\<close>, and \<open>Bol\<close> and \<open>Eol\<close> are
  \<^verbatim>\<open>^\<close> and \<^verbatim>\<open>$\<close>. No pattern of the program has the \<^verbatim>\<open>i\<close>, \<^verbatim>\<open>s\<close>
  or \<^verbatim>\<open>u\<close> flag.
\<close>

datatype regex =
    Eps
  | Chr jschar
  | Digit
  | Space
  | Dot
  | Bol
  | Eol
  | Seq regex regex
  | Alt regex regex
  | Opt regex
  | Star regex
  | Lazy regex
  | Group nat regex

text \<open>\<^verbatim>\<open>r+\<close>, a run of literal characters, and concatenation of several parts.\<close>

definition some :: "regex \<Rightarrow> regex" where
  "some r = Seq r (Star r)"

fun cat :: "regex list \<Rightarrow> regex" where
  "cat [] = Eps"
| "cat [r] = r"
| "cat (r # rs) = Seq r (cat rs)"

definition lit :: "string \<Rightarrow> regex" where
  "lit s = cat (map Chr (js s))"

text \<open>
  The matcher follows the backtracking semantics of ECMAScript. A state is the
  code unit before the current position (none at the start of the input), the
  input that remains, and the captures so far (\<open>None\<close> is
  \<^verbatim>\<open>undefined\<close>). \<open>rmatch m r st\<close> is the list of
  the states in which \<open>r\<close> can end when started in \<open>st\<close>, in the order in which
  a backtracking matcher tries them: the head of the list is the match that
  \<^verbatim>\<open>exec\<close> reports. \<open>m\<close> is the multiline flag. ECMAScript clears the
  captures inside a quantified atom before each of its iterations; no pattern
  of the program has a group inside \<^verbatim>\<open>*\<close> or \<^verbatim>\<open>+\<close>, and the groups inside
  \<^verbatim>\<open>?\<close> are entered with their captures still undefined, so that step has
  nothing to clear and is left out.
\<close>

type_synonym captures = "nat \<Rightarrow> jsstring option"

record mstate =
  before :: "jschar option"
  remaining :: jsstring
  caps :: captures

definition class_step :: "(jschar \<Rightarrow> bool) \<Rightarrow> mstate \<Rightarrow> mstate list" where
  "class_step P st =
     (case remaining st of
        [] \<Rightarrow> []
      | x # xs \<Rightarrow> if P x then [st\<lparr>before := Some x, remaining := xs\<rparr>] else [])"

text \<open>
  A quantified atom is repeated while it consumes input: ECMAScript rejects an
  iteration that matched the empty string. Each accepted iteration therefore
  shortens the remaining input, and the number of code units that remain
  bounds the number of iterations; that number is the recursion argument.
\<close>

primrec star_greedy :: "(mstate \<Rightarrow> mstate list) \<Rightarrow> nat \<Rightarrow> mstate \<Rightarrow> mstate list" where
  "star_greedy f 0 st = [st]"
| "star_greedy f (Suc n) st =
     concat (map (\<lambda>st'. if length (remaining st') = length (remaining st) then []
                         else star_greedy f n st') (f st)) @ [st]"

primrec star_lazy :: "(mstate \<Rightarrow> mstate list) \<Rightarrow> nat \<Rightarrow> mstate \<Rightarrow> mstate list" where
  "star_lazy f 0 st = [st]"
| "star_lazy f (Suc n) st =
     st # concat (map (\<lambda>st'. if length (remaining st') = length (remaining st) then []
                              else star_lazy f n st') (f st))"

primrec rmatch :: "bool \<Rightarrow> regex \<Rightarrow> mstate \<Rightarrow> mstate list" where
  "rmatch m Eps st = [st]"
| "rmatch m (Chr c) st = class_step (\<lambda>x. x = c) st"
| "rmatch m Digit st = class_step is_digit st"
| "rmatch m Space st = class_step is_space st"
| "rmatch m Dot st = class_step (\<lambda>x. \<not> is_line_terminator x) st"
| "rmatch m Bol st =
     (case before st of
        None \<Rightarrow> [st]
      | Some c \<Rightarrow> if m \<and> is_line_terminator c then [st] else [])"
| "rmatch m Eol st =
     (case remaining st of
        [] \<Rightarrow> [st]
      | x # xs \<Rightarrow> if m \<and> is_line_terminator x then [st] else [])"
| "rmatch m (Seq a b) st = concat (map (rmatch m b) (rmatch m a st))"
| "rmatch m (Alt a b) st = rmatch m a st @ rmatch m b st"
| "rmatch m (Opt r) st =
     filter (\<lambda>st'. length (remaining st') \<noteq> length (remaining st)) (rmatch m r st) @ [st]"
| "rmatch m (Star r) st = star_greedy (rmatch m r) (length (remaining st)) st"
| "rmatch m (Lazy r) st = star_lazy (rmatch m r) (length (remaining st)) st"
| "rmatch m (Group n r) st =
     map (\<lambda>st'. st'\<lparr>caps := (caps st')(n := Some (take (length (remaining st)
                                                          - length (remaining st'))
                                                    (remaining st)))\<rparr>)
         (rmatch m r st)"

text \<open>
  A regular-expression object: its pattern and its \<^verbatim>\<open>m\<close> flag. No pattern
  of the program has the \<^verbatim>\<open>g\<close> or \<^verbatim>\<open>y\<close> flag, so \<^verbatim>\<open>exec\<close> and
  \<^verbatim>\<open>test\<close> always search from index 0 and leave \<^verbatim>\<open>lastIndex\<close> alone.
\<close>

record regexp =
  source :: regex
  multiline :: bool

text \<open>\<^verbatim>\<open>addM\<close> (lines 96-101).\<close>

definition addM :: "regexp \<Rightarrow> regexp" where
  "addM rx = (if \<not> multiline rx then \<lparr>source = source rx, multiline = True\<rparr> else rx)"

text \<open>The result of a successful \<^verbatim>\<open>exec\<close>: where the match starts, the
  matched text (element 0 of the result array) and the captures (elements 1, 2,
  ...; \<open>None\<close> is \<^verbatim>\<open>undefined\<close>).\<close>

record rmatch_result =
  index :: nat
  matched :: jsstring
  groups :: captures

text \<open>The search of \<^verbatim>\<open>exec\<close>: the leftmost index at which the pattern
  matches, and there the first match in backtracking order.\<close>

fun exec_from :: "regexp \<Rightarrow> jschar option \<Rightarrow> jsstring \<Rightarrow> nat \<Rightarrow> rmatch_result option" where
  "exec_from rx p [] i =
     (case rmatch (multiline rx) (source rx)
             \<lparr>before = p, remaining = [], caps = \<lambda>_. None\<rparr> of
        [] \<Rightarrow> None
      | st # _ \<Rightarrow> Some \<lparr>index = i, matched = [], groups = caps st\<rparr>)"
| "exec_from rx p (x # xs) i =
     (case rmatch (multiline rx) (source rx)
             \<lparr>before = p, remaining = x # xs, caps = \<lambda>_. None\<rparr> of
        [] \<Rightarrow> exec_from rx (Some x) xs (Suc i)
      | st # _ \<Rightarrow> Some \<lparr>index = i,
                        matched = take (length (x # xs) - length (remaining st)) (x # xs),
                        groups = caps st\<rparr>)"

definition rx_exec :: "regexp \<Rightarrow> jsstring \<Rightarrow> rmatch_result option" where
  "rx_exec rx s = exec_from rx None s 0"

definition rx_test :: "regexp \<Rightarrow> jsstring \<Rightarrow> bool" where
  "rx_test rx s = (rx_exec rx s \<noteq> None)"

text \<open>\<^verbatim>\<open>s.replace(rx, '')\<close> for a pattern without the \<^verbatim>\<open>g\<close> flag: the first
  match is cut out, and a string without a match is returned as it is.\<close>

definition remove_first :: "regexp \<Rightarrow> jsstring \<Rightarrow> jsstring" where
  "remove_first rx s =
     (case rx_exec rx s of
        None \<Rightarrow> s
      | Some mt \<Rightarrow> take (index mt) s @ drop (index mt + length (matched mt)) s)"

section \<open>The timestamp extractor\<close>

text \<open>
  A JavaScript number is an IEEE 754 double. The numbers of this program are
  integers, the two infinities and \<^verbatim>\<open>NaN\<close>: \<open>Num n\<close> is the double whose
  value is the integer \<open>n\<close>. Not every integer is the value of a double, and
  every operation below rounds its exact result to the nearest one that is
  (\<open>to_double\<close>), as IEEE 754 and ECMAScript prescribe. The two zeros are one
  value here: the program reads digit strings only and never produces the
  negative one.
\<close>

datatype jsnumber = Num int | PosInf | NegInf | NaN

text \<open>
  The significand of a double has 53 bits. \<open>excess n\<close> is the number of bits
  that a non-negative integer \<open>n\<close> has beyond 53, and \<open>round_even n\<close> is the
  nearest integer whose bits below that position are 0, the one with the even
  significand when \<open>n\<close> lies half-way between two of them. \<open>to_double x\<close> is
  the Number value for the integer \<open>x\<close>: the rounded value, or an infinity when
  the rounded value reaches \<open>2 ^ 1024\<close>.
\<close>

function excess :: "int \<Rightarrow> nat" where
  "excess n = (if n < 2 ^ 53 then 0 else Suc (excess (n div 2)))"
  by pat_completeness auto

termination
  by (relation "measure nat") auto

declare excess.simps [simp del]

definition round_even :: "int \<Rightarrow> int" where
  "round_even n =
     (let e = excess n; u = 2 ^ e; q = n div u; r = n mod u
      in if 2 * r < u \<or> (2 * r = u \<and> q mod 2 = 0) then q * u else (q + 1) * u)"

definition to_double :: "int \<Rightarrow> jsnumber" where
  "to_double x =
     (let v = round_even \<bar>x\<bar>
      in if 2 ^ 1024 \<le> v then (if x < 0 then NegInf else PosInf)
         else Num (if x < 0 then - v else v))"

text \<open>The product \<^verbatim>\<open>a * k\<close> with an integer literal \<open>k\<close> of the source
  (line 72: 3600 and 60), and the sum \<^verbatim>\<open>a + b\<close>.\<close>

definition num_times :: "jsnumber \<Rightarrow> int \<Rightarrow> jsnumber" where
  "num_times a k =
     (case a of
        Num x \<Rightarrow> to_double (x * k)
      | PosInf \<Rightarrow> if 0 < k then PosInf else if k < 0 then NegInf else NaN
      | NegInf \<Rightarrow> if 0 < k then NegInf else if k < 0 then PosInf else NaN
      | NaN \<Rightarrow> NaN)"

definition num_plus :: "jsnumber \<Rightarrow> jsnumber \<Rightarrow> jsnumber" where
  "num_plus a b =
     (case (a, b) of
        (Num x, Num y) \<Rightarrow> to_double (x + y)
      | (NaN, _) \<Rightarrow> NaN
      | (_, NaN) \<Rightarrow> NaN
      | (PosInf, NegInf) \<Rightarrow> NaN
      | (NegInf, PosInf) \<Rightarrow> NaN
      | (PosInf, _) \<Rightarrow> PosInf
      | (_, PosInf) \<Rightarrow> PosInf
      | (NegInf, _) \<Rightarrow> NegInf
      | (_, NegInf) \<Rightarrow> NegInf)"

text \<open>
  \<^verbatim>\<open>parseInt(s, 10)\<close>: leading white space is skipped, a sign is read, and
  the longest run of decimal digits that follows is read as an integer; the
  result is the Number value for that integer, and \<^verbatim>\<open>NaN\<close> when there is no
  digit. (ECMAScript allows an implementation to read the digits after the
  20th significant one as zeros. V8, the engine of Node.js, returns the
  correctly rounded value of the whole digit string, and so does this
  definition.)
\<close>

definition digit_value :: "jschar \<Rightarrow> int" where
  "digit_value c = int (unat c) - 48"

definition decimal :: "jsstring \<Rightarrow> int" where
  "decimal ds = foldl (\<lambda>acc c. acc * 10 + digit_value c) 0 ds"

definition parseInt :: "jsstring \<Rightarrow> jsnumber" where
  "parseInt s =
     (let t = dropWhile is_space s;
          negative = (case t of [] \<Rightarrow> False | c # _ \<Rightarrow> c = 0x2D);
          u = (case t of [] \<Rightarrow> [] | c # cs \<Rightarrow> if c = 0x2B \<or> c = 0x2D then cs else t);
          ds = takeWhile is_digit u
      in if ds = [] then NaN
         else to_double (if negative then - decimal ds else decimal ds))"

text \<open>The optional hours and the minutes and seconds, \<^verbatim>\<open>(?:(\d+):)?(\d+):(\d+)\<close>,
  which every pattern with a timestamp contains, with the numbers of its three
  captures.\<close>

definition hms :: "nat \<Rightarrow> nat \<Rightarrow> nat \<Rightarrow> regex" where
  "hms h mi s = cat [Opt (cat [Group h (some Digit), Chr (chr '':'')]),
                     Group mi (some Digit), Chr (chr '':''), Group s (some Digit)]"

text \<open>The pattern of line 61:
  \<^verbatim>\<open>/(?:\[\s*(?:(\d+):)?(\d+):(\d+)\s*\]|\(\s*(?:(\d+):)?(\d+):(\d+)\s*\)|(?:(\d+):)?(\d+):(\d+))/\<close>\<close>

definition timestampRegex :: regexp where
  "timestampRegex =
     \<lparr>source =
        Alt (cat [Chr (chr ''[''), Star Space, hms 1 2 3, Star Space, Chr (chr '']'')])
       (Alt (cat [Chr (chr ''(''), Star Space, hms 4 5 6, Star Space, Chr (chr '')'')])
            (hms 7 8 9)),
      multiline = False\<rparr>"

text \<open>The pattern \<^verbatim>\<open>/^\d+\.\s*/\<close> of line 75.\<close>

definition ordinalRegex :: regexp where
  "ordinalRegex =
     \<lparr>source = cat [Bol, some Digit, Chr (chr ''.''), Star Space], multiline = False\<rparr>"

text \<open>\<^verbatim>\<open>a || b || c || '0'\<close> on captures: \<^verbatim>\<open>undefined\<close> and the empty
  string are falsy.\<close>

definition first_truthy :: "jsstring option list \<Rightarrow> jsstring \<Rightarrow> jsstring" where
  "first_truthy cs d =
     (case filter (\<lambda>c. c \<noteq> None \<and> c \<noteq> Some []) cs of
        Some s # _ \<Rightarrow> s
      | _ \<Rightarrow> d)"

text \<open>\<^verbatim>\<open>parseFlexibleTimestamps\<close> (lines 59-78). The object
  \<^verbatim>\<open>{ timestamp, title }\<close> that it returns is the pair of the two.\<close>

definition parseFlexibleTimestamps :: "jsstring \<Rightarrow> jsnumber \<times> jsstring" where
  "parseFlexibleTimestamps line =
     (case rx_exec timestampRegex line of
        None \<Rightarrow> (Num 0, line)
      | Some mt \<Rightarrow>
          (let g = groups mt;
               hours = parseInt (first_truthy [g 1, g 4, g 7] (js ''0''));
               minutes = parseInt (first_truthy [g 2, g 5, g 8] (js ''0''));
               seconds = parseInt (first_truthy [g 3, g 6, g 9] (js ''0''));
               timestamp = num_plus (num_plus (num_times hours 3600) (num_times minutes 60)) seconds;
               title = trim (remove_first ordinalRegex (remove_first timestampRegex line))
           in (timestamp, title)))"

section \<open>The format parsers\<close>

text \<open>A chapter, \<^verbatim>\<open>{ start, title }\<close> (lines 43-46).\<close>

record Chapter =
  start :: jsnumber
  title :: jsstring

text \<open>\<^verbatim>\<open>Array.prototype.findIndex\<close>; \<open>None\<close> is the result \<^verbatim>\<open>-1\<close>.\<close>

fun findIndex :: "('a \<Rightarrow> bool) \<Rightarrow> 'a list \<Rightarrow> nat option" where
  "findIndex P [] = None"
| "findIndex P (x # xs) = (if P x then Some 0 else map_option Suc (findIndex P xs))"

text \<open>The loop of lines 32-47 over \<^verbatim>\<open>chapterLines\<close>, with the array
  \<^verbatim>\<open>chapters\<close> it pushes to.\<close>

fun chapter_loop :: "regexp \<Rightarrow> jsstring list \<Rightarrow> Chapter list \<Rightarrow> Chapter list" where
  "chapter_loop lineRx [] chapters = chapters"
| "chapter_loop lineRx (line # chapterLines) chapters =
     (case rx_exec lineRx line of
        None \<Rightarrow> chapter_loop lineRx chapterLines chapters
      | Some match \<Rightarrow>
          (case parseFlexibleTimestamps line of
             (timestamp, text) \<Rightarrow>
               chapter_loop lineRx chapterLines
                 (chapters @ [\<lparr>start = timestamp, title = trim text\<rparr>])))"

text \<open>\<^verbatim>\<open>makeChapterParser\<close> (lines 17-51). The two capture positions are
  incremented and never read.\<close>

definition makeChapterParser ::
  "regexp \<Rightarrow> regexp \<Rightarrow> nat \<Rightarrow> nat \<Rightarrow> jsstring \<Rightarrow> Chapter list" where
  "makeChapterParser startRx lineRx timestampIndex textIndex description =
     (let nonEmptyLines = skipEmptyLines description
      in case findIndex (rx_test startRx) nonEmptyLines of
           None \<Rightarrow> []
         | Some firstTimestamp \<Rightarrow>
             chapter_loop lineRx (drop firstTimestamp nonEmptyLines) [])"

text \<open>The optional track number \<^verbatim>\<open>(?:\d+\.\s+)?\<close> of lines 110-116.\<close>

definition track :: regex where
  "track = Opt (cat [some Digit, Chr (chr ''.''), some Space])"

text \<open>Line 104: \<^verbatim>\<open>/^0?0:00/m\<close> and \<^verbatim>\<open>/^(?:(\d+):)?(\d+):(\d+)\s+(.*?)$/\<close>.\<close>

definition lawfulStart :: regexp where
  "lawfulStart = \<lparr>source = cat [Bol, Opt (Chr (chr ''0'')), lit ''0:00''], multiline = True\<rparr>"

definition lawfulLine :: regexp where
  "lawfulLine = \<lparr>source = cat [Bol, hms 1 2 3, some Space, Group 4 (Lazy Dot), Eol],
                  multiline = False\<rparr>"

definition lawfulParser :: "jsstring \<Rightarrow> Chapter list" where
  "lawfulParser = makeChapterParser lawfulStart lawfulLine 0 3"

text \<open>Line 106: \<^verbatim>\<open>/^\[(?:0?0:00|00:00)\]/\<close> and
  \<^verbatim>\<open>/^\[(?:(\d+):)?(\d+):(\d+)\]\s+(.*?)$/\<close>.\<close>

definition bracketsStart :: regexp where
  "bracketsStart =
     \<lparr>source = cat [Bol, Chr (chr ''[''),
                     Alt (cat [Opt (Chr (chr ''0'')), lit ''0:00'']) (lit ''00:00''),
                     Chr (chr '']'')],
      multiline = False\<rparr>"

definition bracketsLine :: regexp where
  "bracketsLine =
     \<lparr>source = cat [Bol, Chr (chr ''[''), hms 1 2 3, Chr (chr '']''), some Space,
                     Group 4 (Lazy Dot), Eol],
      multiline = False\<rparr>"

definition bracketsParser :: "jsstring \<Rightarrow> Chapter list" where
  "bracketsParser = makeChapterParser bracketsStart bracketsLine 0 3"

text \<open>Line 108: \<^verbatim>\<open>/^\(0?0:00\)/m\<close> and
  \<^verbatim>\<open>/^\((?:(\d+):)?(\d+):(\d+)\)\s+(.*?)$/\<close>.\<close>

definition parensStart :: regexp where
  "parensStart =
     \<lparr>source = cat [Bol, Chr (chr ''(''), Opt (Chr (chr ''0'')), lit ''0:00'', Chr (chr '')'')],
      multiline = True\<rparr>"

definition parensLine :: regexp where
  "parensLine =
     \<lparr>source = cat [Bol, Chr (chr ''(''), hms 1 2 3, Chr (chr '')''), some Space,
                     Group 4 (Lazy Dot), Eol],
      multiline = False\<rparr>"

definition parensParser :: "jsstring \<Rightarrow> Chapter list" where
  "parensParser = makeChapterParser parensStart parensLine 0 3"

text \<open>Lines 110-111: \<^verbatim>\<open>/^(?:\d+\.\s+)?(.*?)\s+(?:(\d+):)?(\d+):(\d+)$/\<close>.\<close>

definition postfixRx :: regexp where
  "postfixRx =
     \<lparr>source = cat [Bol, track, Group 1 (Lazy Dot), some Space, hms 2 3 4, Eol],
      multiline = False\<rparr>"

definition postfixParser :: "jsstring \<Rightarrow> Chapter list" where
  "postfixParser = makeChapterParser (addM postfixRx) postfixRx 1 0"

text \<open>Lines 113-114:
  \<^verbatim>\<open>/^(?:\d+\.\s+)?(.*?)\s+\(\s*(?:(\d+):)?(\d+):(\d+)\s*\)$/\<close>.\<close>

definition postfixParenRx :: regexp where
  "postfixParenRx =
     \<lparr>source = cat [Bol, track, Group 1 (Lazy Dot), some Space, Chr (chr ''(''), Star Space,
                     hms 2 3 4, Star Space, Chr (chr '')''), Eol],
      multiline = False\<rparr>"

definition postfixParenParser :: "jsstring \<Rightarrow> Chapter list" where
  "postfixParenParser = makeChapterParser (addM postfixParenRx) postfixParenRx 1 0"

text \<open>Lines 116-117: \<^verbatim>\<open>/^(?:\d+\.\s+)?(?:(\d+):)?(\d+):(\d+)\s+(.*)$/\<close>.\<close>

definition prefixRx :: regexp where
  "prefixRx =
     \<lparr>source = cat [Bol, track, hms 1 2 3, some Space, Group 4 (Star Dot), Eol],
      multiline = False\<rparr>"

definition prefixParser :: "jsstring \<Rightarrow> Chapter list" where
  "prefixParser = makeChapterParser (addM prefixRx) prefixRx 0 3"

section \<open>The cascade\<close>

text \<open>\<^verbatim>\<open>parseYouTubeChapters\<close> (lines 125-134), the exported function.\<close>

definition parseYouTubeChapters :: "jsstring \<Rightarrow> Chapter list" where
  "parseYouTubeChapters description =
     (let chapters = lawfulParser description;
          chapters = (if length chapters = 0 then bracketsParser description else chapters);
          chapters = (if length chapters = 0 then parensParser description else chapters);
          chapters = (if length chapters = 0 then postfixParser description else chapters);
          chapters = (if length chapters = 0 then postfixParenParser description else chapters);
          chapters = (if length chapters = 0 then prefixParser description else chapters)
      in chapters)"

section \<open>Regular-expression objects as shared state\<close>

text \<open>
  The twelve patterns of lines 104-117 are objects created once, when the module
  is loaded, and shared by all calls of the exported function. Such an object
  carries \<^verbatim>\<open>lastIndex\<close>, which \<^verbatim>\<open>exec\<close> and \<^verbatim>\<open>test\<close> read and write
  when the pattern has the \<^verbatim>\<open>g\<close> or the \<^verbatim>\<open>y\<close> flag. This section
  models the objects with that state, and the parsers and the cascade as
  functions that take the objects and return them, so that what one call leaves
  behind for the next is explicit. (The two patterns of lines 61 and 75 are
  literals inside \<^verbatim>\<open>parseFlexibleTimestamps\<close>: each call creates them anew.)
\<close>

record regexp_obj =
  pattern :: regexp
  global :: bool
  sticky :: bool
  lastIndex :: nat

text \<open>
  \<^verbatim>\<open>RegExp.prototype.exec\<close> as ECMAScript defines it (RegExpBuiltinExec). The
  search starts at \<^verbatim>\<open>lastIndex\<close> when the object has the \<^verbatim>\<open>g\<close> or the
  \<^verbatim>\<open>y\<close> flag and at 0 otherwise; with \<^verbatim>\<open>y\<close> only that index is tried.
  With one of the two flags a failure stores 0 in \<^verbatim>\<open>lastIndex\<close> and a success
  stores the index where the match ends; without them the object is not
  written. \<^verbatim>\<open>test\<close> is \<^verbatim>\<open>exec\<close> with the result compared with
  \<^verbatim>\<open>null\<close>.
\<close>

definition before_at :: "jsstring \<Rightarrow> nat \<Rightarrow> jschar option" where
  "before_at s i = (if i = 0 then None else Some (s ! (i - 1)))"

definition search_from :: "regexp \<Rightarrow> jsstring \<Rightarrow> nat \<Rightarrow> rmatch_result option" where
  "search_from rx s i = exec_from rx (before_at s i) (drop i s) i"

definition match_at :: "regexp \<Rightarrow> jsstring \<Rightarrow> nat \<Rightarrow> rmatch_result option" where
  "match_at rx s i =
     (case rmatch (multiline rx) (source rx)
             \<lparr>before = before_at s i, remaining = drop i s, caps = \<lambda>_. None\<rparr> of
        [] \<Rightarrow> None
      | st # _ \<Rightarrow> Some \<lparr>index = i,
                        matched = take (length (drop i s) - length (remaining st)) (drop i s),
                        groups = caps st\<rparr>)"

definition exec_obj :: "regexp_obj \<Rightarrow> jsstring \<Rightarrow> rmatch_result option \<times> regexp_obj" where
  "exec_obj R s =
     (let useLast = (global R \<or> sticky R);
          i = (if useLast then lastIndex R else 0);
          failure = (None, if useLast then R\<lparr>lastIndex := 0\<rparr> else R)
      in if length s < i then failure
         else (case (if sticky R then match_at (pattern R) s i
                     else search_from (pattern R) s i) of
                 None \<Rightarrow> failure
               | Some mt \<Rightarrow>
                   (Some mt,
                    if useLast then R\<lparr>lastIndex := index mt + length (matched mt)\<rparr> else R)))"

definition test_obj :: "regexp_obj \<Rightarrow> jsstring \<Rightarrow> bool \<times> regexp_obj" where
  "test_obj R s = (case exec_obj R s of (r, R') \<Rightarrow> (r \<noteq> None, R'))"

text \<open>\<^verbatim>\<open>findIndex\<close> with the predicate \<^verbatim>\<open>(line) => startRx.test(line)\<close>
  of line 25, and the loop of lines 32-47, each handing the pattern object from
  one line to the next.\<close>

fun findIndex_obj :: "regexp_obj \<Rightarrow> jsstring list \<Rightarrow> nat option \<times> regexp_obj" where
  "findIndex_obj R [] = (None, R)"
| "findIndex_obj R (line # lines) =
     (case test_obj R line of
        (True, R') \<Rightarrow> (Some 0, R')
      | (False, R') \<Rightarrow>
          (case findIndex_obj R' lines of (r, R'') \<Rightarrow> (map_option Suc r, R'')))"

fun chapter_loop_obj ::
  "regexp_obj \<Rightarrow> jsstring list \<Rightarrow> Chapter list \<Rightarrow> Chapter list \<times> regexp_obj" where
  "chapter_loop_obj R [] chapters = (chapters, R)"
| "chapter_loop_obj R (line # chapterLines) chapters =
     (case exec_obj R line of
        (None, R') \<Rightarrow> chapter_loop_obj R' chapterLines chapters
      | (Some match, R') \<Rightarrow>
          (case parseFlexibleTimestamps line of
             (timestamp, text) \<Rightarrow>
               chapter_loop_obj R' chapterLines
                 (chapters @ [\<lparr>start = timestamp, title = trim text\<rparr>])))"

text \<open>The closure that \<^verbatim>\<open>makeChapterParser\<close> returns, with the two pattern
  objects it has captured; running it returns the chapters and the two objects
  as the run leaves them.\<close>

record parser_obj =
  start_rx :: regexp_obj
  line_rx :: regexp_obj

definition run_parser :: "parser_obj \<Rightarrow> jsstring \<Rightarrow> Chapter list \<times> parser_obj" where
  "run_parser P description =
     (let nonEmptyLines = skipEmptyLines description
      in case findIndex_obj (start_rx P) nonEmptyLines of
           (None, S) \<Rightarrow> ([], P\<lparr>start_rx := S\<rparr>)
         | (Some firstTimestamp, S) \<Rightarrow>
             (case chapter_loop_obj (line_rx P) (drop firstTimestamp nonEmptyLines) [] of
                (chapters, L) \<Rightarrow> (chapters, \<lparr>start_rx = S, line_rx = L\<rparr>)))"

text \<open>A pattern object as a literal without the \<^verbatim>\<open>g\<close> and \<^verbatim>\<open>y\<close> flags
  creates it (\<^verbatim>\<open>addM\<close> copies the flags and adds \<^verbatim>\<open>m\<close>), and the six
  parsers as lines 104-117 create them when the module is loaded.\<close>

definition new_regexp :: "regexp \<Rightarrow> regexp_obj" where
  "new_regexp rx = \<lparr>pattern = rx, global = False, sticky = False, lastIndex = 0\<rparr>"

definition new_parser :: "regexp \<Rightarrow> regexp \<Rightarrow> parser_obj" where
  "new_parser s l = \<lparr>start_rx = new_regexp s, line_rx = new_regexp l\<rparr>"

definition module_init :: "parser_obj list" where
  "module_init =
     [new_parser lawfulStart lawfulLine, new_parser bracketsStart bracketsLine,
      new_parser parensStart parensLine, new_parser (addM postfixRx) postfixRx,
      new_parser (addM postfixParenRx) postfixParenRx, new_parser (addM prefixRx) prefixRx]"

text \<open>
  The exported function on the shared objects. The list holds the parsers that
  are still to be tried and \<open>chapters\<close> is the variable of line 126, empty
  before the first parser has run: a parser runs only while \<open>chapters\<close> is
  empty, as in lines 127-131, and a parser that does not run keeps its objects.
  \<open>calls\<close> is the state of the module after a sequence of calls.
\<close>

fun cascade_obj :: "parser_obj list \<Rightarrow> jsstring \<Rightarrow> Chapter list \<Rightarrow> Chapter list \<times> parser_obj list" where
  "cascade_obj [] description chapters = (chapters, [])"
| "cascade_obj (P # Ps) description chapters =
     (if length chapters = 0
      then (case run_parser P description of
              (chapters', P') \<Rightarrow>
                (case cascade_obj Ps description chapters' of
                   (r, Ps') \<Rightarrow> (r, P' # Ps')))
      else (case cascade_obj Ps description chapters of (r, Ps') \<Rightarrow> (r, P # Ps')))"

definition parse_obj :: "parser_obj list \<Rightarrow> jsstring \<Rightarrow> Chapter list \<times> parser_obj list" where
  "parse_obj M description = cascade_obj M description []"

definition calls :: "parser_obj list \<Rightarrow> jsstring list \<Rightarrow> parser_obj list" where
  "calls M ds = foldl (\<lambda>M d. snd (parse_obj M d)) M ds"

text \<open>A pattern object that has neither the \<^verbatim>\<open>g\<close> nor the \<^verbatim>\<open>y\<close> flag.\<close>

definition stateless :: "regexp_obj \<Rightarrow> bool" where
  "stateless R = (\<not> global R \<and> \<not> sticky R)"

section \<open>Notions used in the statements\<close>

text \<open>The chapter that an accepted line stands for: the extractor's timestamp
  and its title, trimmed (lines 40-46).\<close>

definition chapter_of :: "jsstring \<Rightarrow> Chapter" where
  "chapter_of line =
     \<lparr>start = fst (parseFlexibleTimestamps line),
      title = trim (snd (parseFlexibleTimestamps line))\<rparr>"

text \<open>The six start patterns, in the order of the cascade.\<close>

definition startPatterns :: "regexp list" where
  "startPatterns = [lawfulStart, bracketsStart, parensStart, addM postfixRx,
                    addM postfixParenRx, addM prefixRx]"

text \<open>A non-empty run of decimal digits.\<close>

definition digits :: "jsstring \<Rightarrow> bool" where
  "digits ds = (ds \<noteq> [] \<and> list_all is_digit ds)"

text \<open>The text of a timestamp with the optional hours \<open>ho\<close>, the minutes and the
  seconds.\<close>

definition hms_text :: "jsstring option \<Rightarrow> jsstring \<Rightarrow> jsstring \<Rightarrow> jsstring" where
  "hms_text ho mi s =
     (case ho of None \<Rightarrow> [] | Some h \<Rightarrow> h @ [chr '':'']) @ mi @ [chr '':''] @ s"

text \<open>
  The three admissible shapes of a timestamp: the text \<^verbatim>\<open>(H:)M:S\<close> bare, or
  in square brackets, or in parentheses, with white space allowed inside the
  enclosing pair. \<open>enclosure\<close> holds of what stands before and after
  \<^verbatim>\<open>(H:)M:S\<close> in such a text.
\<close>

definition enclosure :: "jsstring \<Rightarrow> jsstring \<Rightarrow> bool" where
  "enclosure opn cls =
     ((opn = [] \<and> cls = [])
      \<or> (\<exists>v w. list_all is_space v \<and> list_all is_space w
                 \<and> opn = chr ''['' # v \<and> cls = w @ [chr '']''])
      \<or> (\<exists>v w. list_all is_space v \<and> list_all is_space w
                 \<and> opn = chr ''('' # v \<and> cls = w @ [chr '')'']))"

definition timestamp_shape :: "jsstring \<Rightarrow> bool" where
  "timestamp_shape t =
     (\<exists>ho mi s opn cls.
        (case ho of None \<Rightarrow> True | Some h \<Rightarrow> digits h) \<and> digits mi \<and> digits s
        \<and> enclosure opn cls \<and> t = opn @ hms_text ho mi s @ cls)"

text \<open>The three digit strings that lines 69-71 hand to \<^verbatim>\<open>parseInt\<close>.\<close>

definition timestamp_parts :: "captures \<Rightarrow> jsstring \<times> jsstring \<times> jsstring" where
  "timestamp_parts g =
     (first_truthy [g 1, g 4, g 7] (js ''0''),
      first_truthy [g 2, g 5, g 8] (js ''0''),
      first_truthy [g 3, g 6, g 9] (js ''0''))"

text \<open>A text without its leading ordinal: a non-empty run of digits at the
  start, the dot that follows it and the white space after the dot.\<close>

definition strip_ordinal :: "jsstring \<Rightarrow> jsstring" where
  "strip_ordinal s =
     (case dropWhile is_digit s of
        [] \<Rightarrow> s
      | c # rest \<Rightarrow>
          if takeWhile is_digit s \<noteq> [] \<and> c = chr ''.'' then dropWhile is_space rest else s)"

text \<open>A line that starts with \<^verbatim>\<open>[0:00]\<close> or \<^verbatim>\<open>[00:00]\<close>.\<close>

definition brackets_zero :: "jsstring \<Rightarrow> bool" where
  "brackets_zero l = (prefix (js ''[0:00]'') l \<or> prefix (js ''[00:00]'') l)"

text \<open>A number that is a non-negative integer or \<^verbatim>\<open>Infinity\<close>.\<close>

definition non_negative :: "jsnumber \<Rightarrow> bool" where
  "non_negative a = (case a of Num v \<Rightarrow> 0 \<le> v | PosInf \<Rightarrow> True | NegInf \<Rightarrow> False | NaN \<Rightarrow> False)"

text \<open>\<^verbatim>\<open>lines.join(sep)\<close>: the description whose lines are \<open>lines\<close>, with
  \<open>sep\<close> between one line and the next.\<close>

fun join_with :: "jsstring \<Rightarrow> jsstring list \<Rightarrow> jsstring" where
  "join_with sep [] = []"
| "join_with sep [l] = l"
| "join_with sep (l # ls) = l @ sep @ join_with sep ls"

text \<open>The state of the matcher after the code units \<open>cs\<close> have been
  consumed.\<close>

definition after :: "jsstring \<Rightarrow> mstate \<Rightarrow> mstate" where
  "after cs st =
     st\<lparr>before := (if cs = [] then before st else Some (last cs)),
        remaining := drop (length cs) (remaining st)\<rparr>"

section \<open>Properties of the matcher\<close>

text \<open>A pattern consumes a prefix of the remaining input.\<close>

lemma class_step_mem:
  "st' \<in> set (class_step P st) \<longleftrightarrow>
     (\<exists>x xs. remaining st = x # xs \<and> P x \<and> st' = st\<lparr>before := Some x, remaining := xs\<rparr>)"
  by (cases "remaining st") (auto simp: class_step_def)

lemma class_step_bex:
  "(\<exists>x\<in>set (class_step P st). Q x) \<longleftrightarrow>
     (\<exists>c xs. remaining st = c # xs \<and> P c \<and> Q (st\<lparr>before := Some c, remaining := xs\<rparr>))"
  by (cases "remaining st") (auto simp: class_step_def)

lemma rmatch_class_fun:
  "rmatch m Digit = class_step is_digit"
  "rmatch m Space = class_step is_space"
  "rmatch m Dot = class_step (\<lambda>x. \<not> is_line_terminator x)"
  "rmatch m (Chr c) = class_step (\<lambda>x. x = c)"
  by (rule ext, simp)+

lemma star_greedy_suffix:
  assumes "\<And>a b. b \<in> set (f a) \<Longrightarrow> suffix (remaining b) (remaining a)"
  shows "st' \<in> set (star_greedy f n st) \<Longrightarrow> suffix (remaining st') (remaining st)"
proof (induction n arbitrary: st)
  case 0
  then show ?case by simp
next
  case (Suc n)
  then show ?case
    using assms by (auto split: if_splits intro: suffix_order.trans)
qed

lemma star_lazy_suffix:
  assumes "\<And>a b. b \<in> set (f a) \<Longrightarrow> suffix (remaining b) (remaining a)"
  shows "st' \<in> set (star_lazy f n st) \<Longrightarrow> suffix (remaining st') (remaining st)"
proof (induction n arbitrary: st)
  case 0
  then show ?case by simp
next
  case (Suc n)
  then show ?case
    using assms by (auto split: if_splits intro: suffix_order.trans)
qed

lemma rmatch_suffix:
  "st' \<in> set (rmatch m r st) \<Longrightarrow> suffix (remaining st') (remaining st)"
proof (induction r arbitrary: st st')
  case (Seq a b)
  then obtain st1 where "st1 \<in> set (rmatch m a st)" "st' \<in> set (rmatch m b st1)"
    by auto
  with Seq.IH show ?case
    by (blast intro: suffix_order.trans)
next
  case (Star r)
  then show ?case by (auto intro: star_greedy_suffix)
next
  case (Lazy r)
  then show ?case by (auto intro: star_lazy_suffix)
qed (auto simp: class_step_mem suffix_def split: option.splits list.splits if_splits)

lemma rmatch_consumed:
  assumes "st' \<in> set (rmatch m r st)"
  shows "remaining st
           = take (length (remaining st) - length (remaining st')) (remaining st) @ remaining st'"
proof -
  from rmatch_suffix [OF assms] obtain cs where "remaining st = cs @ remaining st'"
    by (auto simp: suffix_def)
  then show ?thesis by simp
qed

lemma seq_mem_suffix:
  assumes "st' \<in> set (rmatch m (Seq a b) st)"
  shows "\<exists>t. suffix (remaining t) (remaining st) \<and> st' \<in> set (rmatch m b t)"
proof -
  from assms obtain t where "t \<in> set (rmatch m a st)" "st' \<in> set (rmatch m b t)"
    by auto
  with rmatch_suffix show ?thesis
    by blast
qed

text \<open>
  The recursion argument of the two repetitions is large enough: with more of
  it the result is the same. So no match is lost to the bound.
\<close>

lemma star_greedy_fuel:
  assumes "\<And>a b. b \<in> set (f a) \<Longrightarrow> suffix (remaining b) (remaining a)"
  shows "length (remaining st) \<le> n \<Longrightarrow> star_greedy f (n + k) st = star_greedy f n st"
proof (induction n arbitrary: st k)
  case 0
  then have e: "remaining st = []"
    by simp
  show ?case
  proof (cases k)
    case 0
    then show ?thesis by simp
  next
    case (Suc k')
    have "\<And>b. b \<in> set (f st) \<Longrightarrow> length (remaining b) = length (remaining st)"
      using assms [of _ st] e by simp
    then have "map (\<lambda>st'. if length (remaining st') = length (remaining st) then []
                            else star_greedy f k' st') (f st)
                 = map (\<lambda>st'. []) (f st)"
      by (intro map_cong) simp_all
    with Suc show ?thesis
      by simp
  qed
next
  case (Suc n)
  have "(if length (remaining b) = length (remaining st) then [] else star_greedy f (n + k) b)
          = (if length (remaining b) = length (remaining st) then [] else star_greedy f n b)"
    if "b \<in> set (f st)" for b
  proof (cases "length (remaining b) = length (remaining st)")
    case True
    then show ?thesis by simp
  next
    case False
    from assms [OF that] have "length (remaining b) \<le> length (remaining st)"
      by (rule suffix_length_le)
    with False Suc.prems have "length (remaining b) \<le> n"
      by simp
    from Suc.IH [OF this] False show ?thesis
      by simp
  qed
  then have "map (\<lambda>st'. if length (remaining st') = length (remaining st) then []
                          else star_greedy f (n + k) st') (f st)
               = map (\<lambda>st'. if length (remaining st') = length (remaining st) then []
                          else star_greedy f n st') (f st)"
    by (intro map_cong) simp_all
  then show ?case
    by (simp only: add_Suc star_greedy.simps star_lazy.simps)
qed

lemma star_lazy_fuel:
  assumes "\<And>a b. b \<in> set (f a) \<Longrightarrow> suffix (remaining b) (remaining a)"
  shows "length (remaining st) \<le> n \<Longrightarrow> star_lazy f (n + k) st = star_lazy f n st"
proof (induction n arbitrary: st k)
  case 0
  then have e: "remaining st = []"
    by simp
  show ?case
  proof (cases k)
    case 0
    then show ?thesis by simp
  next
    case (Suc k')
    have "\<And>b. b \<in> set (f st) \<Longrightarrow> length (remaining b) = length (remaining st)"
      using assms [of _ st] e by simp
    then have "map (\<lambda>st'. if length (remaining st') = length (remaining st) then []
                            else star_lazy f k' st') (f st)
                 = map (\<lambda>st'. []) (f st)"
      by (intro map_cong) simp_all
    with Suc show ?thesis
      by simp
  qed
next
  case (Suc n)
  have "(if length (remaining b) = length (remaining st) then [] else star_lazy f (n + k) b)
          = (if length (remaining b) = length (remaining st) then [] else star_lazy f n b)"
    if "b \<in> set (f st)" for b
  proof (cases "length (remaining b) = length (remaining st)")
    case True
    then show ?thesis by simp
  next
    case False
    from assms [OF that] have "length (remaining b) \<le> length (remaining st)"
      by (rule suffix_length_le)
    with False Suc.prems have "length (remaining b) \<le> n"
      by simp
    from Suc.IH [OF this] False show ?thesis
      by simp
  qed
  then have "map (\<lambda>st'. if length (remaining st') = length (remaining st) then []
                          else star_lazy f (n + k) st') (f st)
               = map (\<lambda>st'. if length (remaining st') = length (remaining st) then []
                          else star_lazy f n st') (f st)"
    by (intro map_cong) simp_all
  then show ?case
    by (simp only: add_Suc star_greedy.simps star_lazy.simps)
qed

lemma star_fuel_enough:
  "rmatch m (Star r) st = star_greedy (rmatch m r) (length (remaining st) + k) st"
  "rmatch m (Lazy r) st = star_lazy (rmatch m r) (length (remaining st) + k) st"
  by (simp_all add: star_greedy_fuel star_lazy_fuel rmatch_suffix)

text \<open>Concatenation is associative and \<open>Eps\<close> is its unit, so the way \<open>cat\<close>,
  \<open>lit\<close>, \<open>hms\<close> and \<open>track\<close> nest the parts of a pattern does not matter.\<close>

lemma concat_map_concat:
  "concat (map g (concat (map f xs))) = concat (map (\<lambda>x. concat (map g (f x))) xs)"
  by (induction xs) simp_all

lemma rmatch_Seq_assoc: "rmatch m (Seq (Seq a b) c) st = rmatch m (Seq a (Seq b c)) st"
proof -
  have "rmatch m (Seq b c) = (\<lambda>x. concat (map (rmatch m c) (rmatch m b x)))"
    by (rule ext) simp
  then show ?thesis
    by (simp add: concat_map_concat)
qed

lemma concat_map_single: "concat (map (\<lambda>x. [x]) xs) = xs"
  by (induction xs) simp_all

lemma rmatch_Seq_Eps: "rmatch m (Seq r Eps) st = rmatch m r st"
proof -
  have "rmatch m Eps = (\<lambda>x. [x])"
    by (rule ext) simp
  then show ?thesis
    by (simp add: concat_map_single)
qed

text \<open>Runs of one character class, and the digit strings that a group
  captures.\<close>

lemma star_class_mem:
  "st' \<in> set (star_greedy (class_step P) n st) \<Longrightarrow>
   \<exists>cs. list_all P cs \<and> remaining st = cs @ remaining st' \<and> caps st' = caps st"
proof (induction n arbitrary: st)
  case 0
  then show ?case by auto
next
  case (Suc n)
  show ?case
  proof (cases "st' = st")
    case True
    then show ?thesis by auto
  next
    case False
    with Suc.prems obtain st1 where
      s1: "st1 \<in> set (class_step P st)" and s2: "st' \<in> set (star_greedy (class_step P) n st1)"
      by (auto split: if_splits)
    from s1 obtain x xs where x: "remaining st = x # xs" "P x" "st1 = st\<lparr>before := Some x, remaining := xs\<rparr>"
      by (auto simp: class_step_mem)
    from Suc.IH [OF s2] obtain cs where
      "list_all P cs" "remaining st1 = cs @ remaining st'" "caps st' = caps st1"
      by auto
    with x show ?thesis
      by - (rule exI [of _ "x # cs"],
        simp)
  qed
qed

lemma some_class_mem:
  assumes "st' \<in> set (concat (map (star_greedy (class_step P) n) (class_step P st)))"
  shows "\<exists>cs. cs \<noteq> [] \<and> list_all P cs \<and> remaining st = cs @ remaining st' \<and> caps st' = caps st"
proof -
  from assms obtain st1 where
    s1: "st1 \<in> set (class_step P st)" and s2: "st' \<in> set (star_greedy (class_step P) n st1)"
    by auto
  from s1 obtain x xs where
    x: "remaining st = x # xs" "P x" "st1 = st\<lparr>before := Some x, remaining := xs\<rparr>"
    by (auto simp: class_step_mem)
  from star_class_mem [OF s2] obtain cs where
    "list_all P cs" "remaining st1 = cs @ remaining st'" "caps st' = caps st1"
    by auto
  with x show ?thesis
    by - (rule exI [of _ "x # cs"],
        simp)
qed

lemma space_star_mem:
  assumes "st' \<in> set (rmatch m (Star Space) st)"
  shows "\<exists>w. list_all is_space w \<and> remaining st = w @ remaining st' \<and> caps st' = caps st"
  using assms star_class_mem [of st' is_space "length (remaining st)" st]
  by (simp add: rmatch_class_fun)

lemma chr_mem:
  "st' \<in> set (rmatch m (Chr c) st) \<Longrightarrow> remaining st = c # remaining st' \<and> caps st' = caps st"
  by (auto simp: class_step_mem)

lemma eol_mem: "st' \<in> set (rmatch False Eol st) \<Longrightarrow> remaining st = []"
  by (cases "remaining st") auto

lemma mem_Alt:
  "st' \<in> set (rmatch m (Alt a b) st) \<longleftrightarrow>
     st' \<in> set (rmatch m a st) \<or> st' \<in> set (rmatch m b st)"
  by simp

lemma group_digits_mem:
  assumes "st' \<in> set (rmatch m (Group k (some Digit)) st)"
  shows "\<exists>ds. digits ds \<and> remaining st = ds @ remaining st' \<and> caps st' = (caps st)(k := Some ds)"
proof -
  from assms obtain st1 where
    s1: "st1 \<in> set (rmatch m (some Digit) st)" and
    s2: "st' = st1\<lparr>caps := (caps st1)(k := Some (take (length (remaining st) - length (remaining st1))
                                                   (remaining st)))\<rparr>"
    by auto
  from s1 obtain ds where
    "ds \<noteq> []" "list_all is_digit ds" "remaining st = ds @ remaining st1" "caps st1 = caps st"
    using some_class_mem [of st1 is_digit _ st] by (auto simp: some_def rmatch_class_fun)
  with s2 show ?thesis
    by - (rule exI [of _ ds],
        simp add: digits_def)
qed

lemma hms_mem:
  assumes "st' \<in> set (rmatch m (hms a b c) st)"
  shows "\<exists>ho mi s.
           (case ho of None \<Rightarrow> True | Some h \<Rightarrow> digits h) \<and> digits mi \<and> digits s
           \<and> remaining st = hms_text ho mi s @ remaining st'
           \<and> caps st' = (case ho of None \<Rightarrow> caps st | Some h \<Rightarrow> (caps st)(a := Some h))
                          (b := Some mi, c := Some s)"
proof -
  from assms obtain s1 s2 s3 where
    a: "s1 \<in> set (rmatch m (Opt (Seq (Group a (some Digit)) (Chr (chr '':'')))) st)" and
    b: "s2 \<in> set (rmatch m (Group b (some Digit)) s1)" and
    c: "s3 \<in> set (rmatch m (Chr (chr '':'')) s2)" and
    d: "st' \<in> set (rmatch m (Group c (some Digit)) s3)"
    by (auto simp: hms_def)
  from a have "\<exists>ho. (case ho of None \<Rightarrow> True | Some h \<Rightarrow> digits h)
        \<and> remaining st = (case ho of None \<Rightarrow> [] | Some h \<Rightarrow> h @ [chr '':'']) @ remaining s1
        \<and> caps s1 = (case ho of None \<Rightarrow> caps st | Some h \<Rightarrow> (caps st)(a := Some h))"
  proof (cases "s1 = st")
    case True
    then show ?thesis
      by - (rule exI [of _ None],
        simp)
  next
    case False
    with a obtain t where
      t: "t \<in> set (rmatch m (Group a (some Digit)) st)" "s1 \<in> set (rmatch m (Chr (chr '':'')) t)"
      by auto
    from group_digits_mem [OF t(1)] obtain h where
      "digits h" "remaining st = h @ remaining t" "caps t = (caps st)(a := Some h)"
      by blast
    with chr_mem [OF t(2)] show ?thesis
      by - (rule exI [of _ "Some h"],
        simp)
  qed
  then obtain ho where ho:
    "case ho of None \<Rightarrow> True | Some h \<Rightarrow> digits h"
    "remaining st = (case ho of None \<Rightarrow> [] | Some h \<Rightarrow> h @ [chr '':'']) @ remaining s1"
    "caps s1 = (case ho of None \<Rightarrow> caps st | Some h \<Rightarrow> (caps st)(a := Some h))"
    by blast
  from group_digits_mem [OF b] obtain mi where
    mi: "digits mi" "remaining s1 = mi @ remaining s2" "caps s2 = (caps s1)(b := Some mi)"
    by blast
  from group_digits_mem [OF d] obtain s where
    s: "digits s" "remaining s3 = s @ remaining st'" "caps st' = (caps s3)(c := Some s)"
    by blast
  from ho mi chr_mem [OF c] s show ?thesis
    by - (rule exI [of _ ho], rule exI [of _ mi], rule exI [of _ s],
        simp add: hms_text_def)
qed

text \<open>Sequences, groups and the end of the input; the last two parts of a
  concatenation; and a run of \<^verbatim>\<open>.\<close>, greedy or reluctant.\<close>

lemma seq_mem:
  "st' \<in> set (rmatch m (Seq a b) st) \<longleftrightarrow>
     (\<exists>t. t \<in> set (rmatch m a st) \<and> st' \<in> set (rmatch m b t))"
  by auto

lemma group_mem:
  "v \<in> set (rmatch m (Group k r) u) \<longleftrightarrow>
     (\<exists>w. w \<in> set (rmatch m r u)
          \<and> v = w\<lparr>caps := (caps w)(k := Some (take (length (remaining u) - length (remaining w))
                                                   (remaining u)))\<rparr>)"
  by auto

lemma eol_mem_iff: "st \<in> set (rmatch False Eol v) \<longleftrightarrow> remaining v = [] \<and> st = v"
  by (cases "remaining v") auto

lemma cat_Cons: "rs \<noteq> [] \<Longrightarrow> cat (r # rs) = Seq r (cat rs)"
  by (cases rs) simp_all

lemma cat_last_two:
  "st \<in> set (rmatch m (cat (rs @ [a, b])) t) \<Longrightarrow>
   \<exists>u. suffix (remaining u) (remaining t) \<and> st \<in> set (rmatch m (Seq a b) u)"
proof (induction rs arbitrary: t)
  case Nil
  then show ?case
    by - (rule exI [of _ t], simp)
next
  case (Cons r rs)
  then have "st \<in> set (rmatch m (Seq r (cat (rs @ [a, b]))) t)"
    by (simp add: cat_Cons)
  from seq_mem_suffix [OF this] obtain t1 where
    t1: "suffix (remaining t1) (remaining t)" "st \<in> set (rmatch m (cat (rs @ [a, b])) t1)"
    by blast
  from Cons.IH [OF t1(2)] t1(1) show ?case
    by (blast intro: suffix_order.trans)
qed

lemma star_lazy_class_mem:
  "st' \<in> set (star_lazy (class_step P) n st) \<Longrightarrow>
   \<exists>cs. list_all P cs \<and> remaining st = cs @ remaining st' \<and> caps st' = caps st"
proof (induction n arbitrary: st)
  case 0
  then show ?case by auto
next
  case (Suc n)
  show ?case
  proof (cases "st' = st")
    case True
    then show ?thesis by auto
  next
    case False
    with Suc.prems obtain st1 where
      s1: "st1 \<in> set (class_step P st)" and s2: "st' \<in> set (star_lazy (class_step P) n st1)"
      by (auto split: if_splits)
    from s1 obtain x xs where
      x: "remaining st = x # xs" "P x" "st1 = st\<lparr>before := Some x, remaining := xs\<rparr>"
      by (auto simp: class_step_mem)
    from Suc.IH [OF s2] obtain cs where
      "list_all P cs" "remaining st1 = cs @ remaining st'" "caps st' = caps st1"
      by auto
    with x show ?thesis
      by - (rule exI [of _ "x # cs"],
        simp)
  qed
qed

lemma dot_run_mem:
  assumes "X = Lazy Dot \<or> X = Star Dot"
    and "st' \<in> set (rmatch m X st)"
  shows "\<exists>cs. list_all (\<lambda>x. \<not> is_line_terminator x) cs \<and> remaining st = cs @ remaining st'
              \<and> caps st' = caps st"
  using assms star_class_mem [of st' "\<lambda>x. \<not> is_line_terminator x" "length (remaining st)" st]
    star_lazy_class_mem [of st' "\<lambda>x. \<not> is_line_terminator x" "length (remaining st)" st]
  by (auto simp: rmatch_class_fun)

lemma title_eol_mem:
  assumes "X = Lazy Dot \<or> X = Star Dot"
    and "st \<in> set (rmatch False (Seq (Group k X) Eol) u)"
  shows "list_all (\<lambda>x. \<not> is_line_terminator x) (remaining u) \<and> caps st k = Some (remaining u)"
proof -
  from assms(2) obtain w where
    w: "w \<in> set (rmatch False X u)" "remaining w = []"
       "st = w\<lparr>caps := (caps w)(k := Some (take (length (remaining u) - length (remaining w))
                                                   (remaining u)))\<rparr>"
    unfolding seq_mem group_mem eol_mem_iff by auto
  from dot_run_mem [OF assms(1) w(1)] obtain cs where
    "list_all (\<lambda>x. \<not> is_line_terminator x) cs" "remaining u = cs @ remaining w"
    by blast
  with w(2,3) show ?thesis
    by simp
qed

lemma chr_eol_mem:
  assumes "st \<in> set (rmatch False (Seq (Chr c) Eol) u)"
  shows "remaining u = [c]"
proof -
  from assms obtain v where v: "v \<in> set (rmatch False (Chr c) u)" "st \<in> set (rmatch False Eol v)"
    by auto
  from chr_mem [OF v(1)] eol_mem [OF v(2)] show ?thesis
    by simp
qed

text \<open>What \<^verbatim>\<open>exec\<close> returns: a match of the pattern at some index of the
  string, none at an index before it, and nothing when the pattern matches
  nowhere.\<close>

lemma nonempty_iff: "xs \<noteq> [] \<longleftrightarrow> (\<exists>x. x \<in> set xs)"
  by (cases xs) auto

lemma exec_from_Some:
  "exec_from rx p s i = Some mt \<Longrightarrow>
   \<exists>pre st rest.
     rmatch (multiline rx) (source rx)
       \<lparr>before = (if pre = [] then p else Some (last pre)),
        remaining = matched mt @ remaining st, caps = \<lambda>_. None\<rparr> = st # rest
     \<and> s = pre @ matched mt @ remaining st \<and> index mt = i + length pre
     \<and> groups mt = caps st"
proof (induction s arbitrary: p i)
  case Nil
  then obtain st rest where
    r: "rmatch (multiline rx) (source rx) \<lparr>before = p, remaining = [], caps = \<lambda>_. None\<rparr> = st # rest"
    and mt: "mt = \<lparr>index = i, matched = [], groups = caps st\<rparr>"
    by (auto split: list.splits)
  from r have "st \<in> set (rmatch (multiline rx) (source rx)
                           \<lparr>before = p, remaining = [], caps = \<lambda>_. None\<rparr>)"
    by simp
  from rmatch_suffix [OF this] have "remaining st = []"
    by simp
  with r mt show ?case
    by - (rule exI [of _ "[]"], rule exI [of _ st], rule exI [of _ rest],
        simp)
next
  case (Cons x xs)
  let ?st0 = "\<lparr>before = p, remaining = x # xs, caps = \<lambda>_. None\<rparr>"
  show ?case
  proof (cases "rmatch (multiline rx) (source rx) ?st0")
    case Nil
    with Cons.prems have "exec_from rx (Some x) xs (Suc i) = Some mt"
      by simp
    from Cons.IH [OF this] obtain pre st rest where
      "rmatch (multiline rx) (source rx)
         \<lparr>before = (if pre = [] then Some x else Some (last pre)),
          remaining = matched mt @ remaining st, caps = \<lambda>_. None\<rparr> = st # rest"
      "xs = pre @ matched mt @ remaining st" "index mt = Suc i + length pre"
      "groups mt = caps st"
      by blast
    then show ?thesis
      by - (rule exI [of _ "x # pre"], rule exI [of _ st], rule exI [of _ rest],
        auto split: if_splits)
  next
    case (Cons st rest)
    then have "st \<in> set (rmatch (multiline rx) (source rx) ?st0)"
      by simp
    from rmatch_consumed [OF this] Cons Cons.prems show ?thesis
      by - (rule exI [of _ "[]"], rule exI [of _ st], rule exI [of _ rest],
        auto)
  qed
qed

lemma exec_from_leftmost:
  "exec_from rx p s i = Some mt \<Longrightarrow> j < index mt - i \<Longrightarrow>
   rmatch (multiline rx) (source rx)
     \<lparr>before = (if j = 0 then p else Some (s ! (j - 1))), remaining = drop j s,
      caps = \<lambda>_. None\<rparr> = []"
proof (induction s arbitrary: p i j)
  case Nil
  then show ?case
    by (auto split: list.splits)
next
  case (Cons x xs)
  show ?case
  proof (cases "rmatch (multiline rx) (source rx)
                  \<lparr>before = p, remaining = x # xs, caps = \<lambda>_. None\<rparr>")
    case Nil
    with Cons.prems have e: "exec_from rx (Some x) xs (Suc i) = Some mt"
      by simp
    show ?thesis
    proof (cases j)
      case 0
      with Nil show ?thesis by simp
    next
      case (Suc j')
      with Cons.prems have "j' < index mt - Suc i"
        by simp
      from Cons.IH [OF e this] Suc show ?thesis
        by (cases j') simp_all
    qed
  next
    case (Cons st rest)
    with Cons.prems show ?thesis
      by auto
  qed
qed

lemma exec_from_NoneI:
  assumes "\<And>p' s'. suffix s' s \<Longrightarrow>
             rmatch (multiline rx) (source rx) \<lparr>before = p', remaining = s', caps = \<lambda>_. None\<rparr> = []"
  shows "exec_from rx p s i = None"
  using assms
proof (induction s arbitrary: p i)
  case Nil
  then show ?case by simp
next
  case (Cons x xs)
  have "rmatch (multiline rx) (source rx) \<lparr>before = p, remaining = x # xs, caps = \<lambda>_. None\<rparr> = []"
    by (rule Cons.prems) simp
  moreover have "exec_from rx (Some x) xs (Suc i) = None"
    by (rule Cons.IH) (simp add: Cons.prems suffix_ConsI)
  ultimately show ?case by simp
qed

lemma exec_from_anchored:
  assumes "\<not> multiline rx" and "source rx = Seq Bol r"
  shows "exec_from rx (Some c) s i = None"
  using assms by (induction s arbitrary: c i) simp_all

lemma rx_test_anchored:
  assumes "\<not> multiline rx" and "source rx = Seq Bol r"
  shows "rx_test rx l \<longleftrightarrow>
           (\<exists>st. st \<in> set (rmatch False r \<lparr>before = None, remaining = l, caps = \<lambda>_. None\<rparr>))"
  using assms exec_from_anchored [OF assms]
  by (cases l) (auto simp: rx_test_def rx_exec_def nonempty_iff [symmetric] split: list.splits)

text \<open>The head of the result list of a greedy run of one class: the longest
  run.\<close>

lemma after_Nil [simp]: "after [] st = st"
  by (simp add: after_def)

lemma after_Cons:
  "after (x # cs) st = after cs (st\<lparr>before := Some x, remaining := tl (remaining st)\<rparr>)"
  by (simp add: after_def drop_Suc)

lemma remaining_after_takeWhile:
  "remaining (after (takeWhile P (remaining st)) st) = dropWhile P (remaining st)"
  by (simp add: after_def dropWhile_eq_drop)

lemma star_class_then:
  assumes "\<And>t x xs. remaining t = x # xs \<Longrightarrow> P x \<Longrightarrow> K t = []"
  shows "length (remaining st) \<le> n \<Longrightarrow>
         concat (map K (star_greedy (class_step P) n st))
           = K (after (takeWhile P (remaining st)) st)"
proof (induction n arbitrary: st)
  case 0
  then show ?case by simp
next
  case (Suc n)
  show ?case
  proof (cases "remaining st")
    case Nil
    then show ?thesis
      by (simp add: class_step_def)
  next
    case (Cons x xs)
    show ?thesis
    proof (cases "P x")
      case True
      let ?st1 = "st\<lparr>before := Some x, remaining := xs\<rparr>"
      from Cons Suc.prems have "length (remaining ?st1) \<le> n"
        by simp
      from Suc.IH [OF this] assms [OF Cons True] Cons True show ?thesis
        by (simp add: class_step_def after_Cons)
    next
      case False
      with Cons show ?thesis
        by (simp add: class_step_def)
    qed
  qed
qed

lemma star_class_hd:
  "length (remaining st) \<le> n \<Longrightarrow>
   \<exists>rest. star_greedy (class_step P) n st = after (takeWhile P (remaining st)) st # rest"
proof (induction n arbitrary: st)
  case 0
  then show ?case by simp
next
  case (Suc n)
  show ?case
  proof (cases "remaining st")
    case Nil
    then show ?thesis
      by (simp add: class_step_def)
  next
    case (Cons x xs)
    show ?thesis
    proof (cases "P x")
      case True
      let ?st1 = "st\<lparr>before := Some x, remaining := xs\<rparr>"
      from Cons Suc.prems have "length (remaining ?st1) \<le> n"
        by simp
      from Suc.IH [OF this] Cons True show ?thesis
        by (auto simp: class_step_def after_Cons)
    next
      case False
      with Cons show ?thesis
        by (simp add: class_step_def)
    qed
  qed
qed

lemma some_digit_then:
  assumes "\<And>t x xs. remaining t = x # xs \<Longrightarrow> is_digit x \<Longrightarrow> K t = []"
  shows "concat (map K (rmatch m (some Digit) st))
           = (if takeWhile is_digit (remaining st) = [] then []
              else K (after (takeWhile is_digit (remaining st)) st))"
proof (cases "remaining st")
  case Nil
  then show ?thesis
    by (simp add: some_def class_step_def)
next
  case (Cons x xs)
  show ?thesis
  proof (cases "is_digit x")
    case True
    let ?st1 = "st\<lparr>before := Some x, remaining := xs\<rparr>"
    have "concat (map K (star_greedy (class_step is_digit) (length (remaining ?st1)) ?st1))
            = K (after (takeWhile is_digit (remaining ?st1)) ?st1)"
      by (rule star_class_then [OF assms]) simp_all
    with Cons True show ?thesis
      by (simp add: some_def class_step_def rmatch_class_fun after_Cons)
  next
    case False
    with Cons show ?thesis
      by (simp add: some_def class_step_def)
  qed
qed

section \<open>The patterns of the program\<close>

text \<open>The pattern of the extractor matches the three shapes only, and its
  captures are the digit strings of the text it matched.\<close>

lemma digits_nonempty: "digits ds \<Longrightarrow> ds \<noteq> []"
  by (simp add: digits_def)

lemma digits_zero: "digits (js ''0'')"
  by (simp add: digits_def js_def is_digit_def)

lemma decimal_zero: "decimal (js ''0'') = 0"
  by (simp add: decimal_def js_def digit_value_def)

lemma first_truthy_simps:
  "first_truthy [None, None, None] d = d"
  "x \<noteq> [] \<Longrightarrow> first_truthy [Some x, None, None] d = x"
  "x \<noteq> [] \<Longrightarrow> first_truthy [None, Some x, None] d = x"
  "x \<noteq> [] \<Longrightarrow> first_truthy [None, None, Some x] d = x"
  by (simp_all add: first_truthy_def)

lemma hms_parts_None:
  assumes "digits mi" and "digits s"
  shows "timestamp_parts ((\<lambda>_. None)(2 := Some mi, 3 := Some s)) = (js ''0'', mi, s)"
    and "timestamp_parts ((\<lambda>_. None)(5 := Some mi, 6 := Some s)) = (js ''0'', mi, s)"
    and "timestamp_parts ((\<lambda>_. None)(8 := Some mi, 9 := Some s)) = (js ''0'', mi, s)"
  using assms [THEN digits_nonempty]
  by (simp_all add: timestamp_parts_def first_truthy_simps)

lemma hms_parts_Some:
  assumes "digits h" and "digits mi" and "digits s"
  shows "timestamp_parts ((\<lambda>_. None)(Suc 0 := Some h, 2 := Some mi, 3 := Some s)) = (h, mi, s)"
    and "timestamp_parts ((\<lambda>_. None)(4 := Some h, 5 := Some mi, 6 := Some s)) = (h, mi, s)"
    and "timestamp_parts ((\<lambda>_. None)(7 := Some h, 8 := Some mi, 9 := Some s)) = (h, mi, s)"
  using assms [THEN digits_nonempty]
  by (simp_all add: timestamp_parts_def first_truthy_simps)

lemma enclosed_hms_mem:
  assumes "st' \<in> set (rmatch m (cat [Chr a, Star Space, hms i j k, Star Space, Chr b]) st)"
  shows "\<exists>v w s1 s2. list_all is_space v \<and> list_all is_space w
           \<and> remaining st = a # v @ remaining s1 \<and> caps s1 = caps st
           \<and> s2 \<in> set (rmatch m (hms i j k) s1)
           \<and> remaining s2 = w @ b # remaining st' \<and> caps st' = caps s2"
proof -
  from assms obtain t1 t2 t3 t4 where
    t: "t1 \<in> set (rmatch m (Chr a) st)" "t2 \<in> set (rmatch m (Star Space) t1)"
       "t3 \<in> set (rmatch m (hms i j k) t2)" "t4 \<in> set (rmatch m (Star Space) t3)"
       "st' \<in> set (rmatch m (Chr b) t4)"
    by auto
  from space_star_mem [OF t(2)] obtain v where
    v: "list_all is_space v" "remaining t1 = v @ remaining t2" "caps t2 = caps t1"
    by blast
  from space_star_mem [OF t(4)] obtain w where
    w: "list_all is_space w" "remaining t3 = w @ remaining t4" "caps t4 = caps t3"
    by blast
  from v w chr_mem [OF t(1)] chr_mem [OF t(5)] t(3) show ?thesis
    by - (rule exI [of _ v], rule exI [of _ w], rule exI [of _ t2], rule exI [of _ t3],
        simp)
qed

lemma timestampRegex_mem:
  assumes "st \<in> set (rmatch m (source timestampRegex)
                       \<lparr>before = p, remaining = s0, caps = \<lambda>_. None\<rparr>)"
  shows "\<exists>ho mi s opn cls.
           (case ho of None \<Rightarrow> True | Some h \<Rightarrow> digits h) \<and> digits mi \<and> digits s
           \<and> enclosure opn cls
           \<and> s0 = opn @ hms_text ho mi s @ cls @ remaining st
           \<and> timestamp_parts (caps st) = (case ho of None \<Rightarrow> js ''0'' | Some h \<Rightarrow> h, mi, s)"
proof -
  let ?st0 = "\<lparr>before = p, remaining = s0, caps = \<lambda>_. None\<rparr>"
  from assms [unfolded timestampRegex_def regexp.select_convs mem_Alt] consider
    (brackets) "st \<in> set (rmatch m (cat [Chr (chr ''[''), Star Space, hms 1 2 3, Star Space,
                                         Chr (chr '']'')]) ?st0)"
  | (parens) "st \<in> set (rmatch m (cat [Chr (chr ''(''), Star Space, hms 4 5 6, Star Space,
                                       Chr (chr '')'')]) ?st0)"
  | (bare) "st \<in> set (rmatch m (hms 7 8 9) ?st0)"
    by blast
  then show ?thesis
  proof cases
    case brackets
    from enclosed_hms_mem [OF this] obtain v w s1 s2 where
      e: "list_all is_space v" "list_all is_space w" "s0 = chr ''['' # v @ remaining s1"
         "caps s1 = (\<lambda>_. None)" "s2 \<in> set (rmatch m (hms 1 2 3) s1)"
         "remaining s2 = w @ chr '']'' # remaining st" "caps st = caps s2"
      by auto
    from hms_mem [OF e(5), unfolded e(4)] obtain ho mi s where
      h: "case ho of None \<Rightarrow> True | Some h \<Rightarrow> digits h" "digits mi" "digits s"
         "remaining s1 = hms_text ho mi s @ remaining s2"
         "caps s2 = (case ho of None \<Rightarrow> (\<lambda>_. None) | Some h \<Rightarrow> (\<lambda>_. None)(1 := Some h))
                      (2 := Some mi, 3 := Some s)"
      by blast
    from e h show ?thesis
      by - (rule exI [of _ ho], rule exI [of _ mi], rule exI [of _ s], rule exI [of _ "chr ''['' # v"], rule exI [of _ "w @ [chr '']'']"],
        cases ho; auto simp: enclosure_def hms_parts_None hms_parts_Some)
  next
    case parens
    from enclosed_hms_mem [OF this] obtain v w s1 s2 where
      e: "list_all is_space v" "list_all is_space w" "s0 = chr ''('' # v @ remaining s1"
         "caps s1 = (\<lambda>_. None)" "s2 \<in> set (rmatch m (hms 4 5 6) s1)"
         "remaining s2 = w @ chr '')'' # remaining st" "caps st = caps s2"
      by auto
    from hms_mem [OF e(5), unfolded e(4)] obtain ho mi s where
      h: "case ho of None \<Rightarrow> True | Some h \<Rightarrow> digits h" "digits mi" "digits s"
         "remaining s1 = hms_text ho mi s @ remaining s2"
         "caps s2 = (case ho of None \<Rightarrow> (\<lambda>_. None) | Some h \<Rightarrow> (\<lambda>_. None)(4 := Some h))
                      (5 := Some mi, 6 := Some s)"
      by blast
    from e h show ?thesis
      by - (rule exI [of _ ho], rule exI [of _ mi], rule exI [of _ s], rule exI [of _ "chr ''('' # v"], rule exI [of _ "w @ [chr '')'']"],
        cases ho; auto simp: enclosure_def hms_parts_None hms_parts_Some)
  next
    case bare
    from hms_mem [OF this, unfolded mstate.select_convs] obtain ho mi s where
      h: "case ho of None \<Rightarrow> True | Some h \<Rightarrow> digits h" "digits mi" "digits s"
         "s0 = hms_text ho mi s @ remaining st"
         "caps st = (case ho of None \<Rightarrow> (\<lambda>_. None) | Some h \<Rightarrow> (\<lambda>_. None)(7 := Some h))
                      (8 := Some mi, 9 := Some s)"
      by blast
    from h show ?thesis
      by - (rule exI [of _ ho], rule exI [of _ mi], rule exI [of _ s], rule exI [of _ "[]"], rule exI [of _ "[]"],
        cases ho; auto simp: enclosure_def hms_parts_None hms_parts_Some)
  qed
qed

lemma timestamp_match:
  assumes "rx_exec timestampRegex line = Some mt"
  shows "\<exists>ho mi s opn cls.
           (case ho of None \<Rightarrow> True | Some h \<Rightarrow> digits h) \<and> digits mi \<and> digits s
           \<and> enclosure opn cls
           \<and> matched mt = opn @ hms_text ho mi s @ cls
           \<and> line = take (index mt) line @ matched mt @ drop (index mt + length (matched mt)) line
           \<and> timestamp_parts (groups mt) = (case ho of None \<Rightarrow> js ''0'' | Some h \<Rightarrow> h, mi, s)"
proof -
  from exec_from_Some [OF assms [unfolded rx_exec_def]] obtain pre st rest where
    r: "rmatch (multiline timestampRegex) (source timestampRegex)
          \<lparr>before = (if pre = [] then None else Some (last pre)),
           remaining = matched mt @ remaining st, caps = \<lambda>_. None\<rparr> = st # rest"
    and l: "line = pre @ matched mt @ remaining st" "index mt = length pre"
    and g: "groups mt = caps st"
    by auto
  from r have "st \<in> set (rmatch (multiline timestampRegex) (source timestampRegex)
          \<lparr>before = (if pre = [] then None else Some (last pre)),
           remaining = matched mt @ remaining st, caps = \<lambda>_. None\<rparr>)"
    by simp
  from timestampRegex_mem [OF this] obtain ho mi s opn cls where
    t: "case ho of None \<Rightarrow> True | Some h \<Rightarrow> digits h" "digits mi" "digits s"
       "enclosure opn cls"
       "matched mt @ remaining st = opn @ hms_text ho mi s @ cls @ remaining st"
       "timestamp_parts (caps st) = (case ho of None \<Rightarrow> js ''0'' | Some h \<Rightarrow> h, mi, s)"
    by blast
  from t(5) have m: "matched mt = opn @ hms_text ho mi s @ cls"
    by simp
  from l have "line = take (index mt) line @ matched mt @ drop (index mt + length (matched mt)) line"
    by simp
  with t m g show ?thesis
    by - (rule exI [of _ ho], rule exI [of _ mi], rule exI [of _ s],
          rule exI [of _ opn], rule exI [of _ cls], simp)
qed

lemma shape_has_colon: "timestamp_shape t \<Longrightarrow> chr '':'' \<in> set t"
  by (auto simp: timestamp_shape_def hms_text_def)

lemma match_is_shape:
  assumes "rx_exec timestampRegex line = Some mt"
  shows "timestamp_shape (matched mt) \<and> sublist (matched mt) line"
proof -
  from timestamp_match [OF assms] obtain ho mi s opn cls where
    "case ho of None \<Rightarrow> True | Some h \<Rightarrow> digits h" "digits mi" "digits s"
    "enclosure opn cls" "matched mt = opn @ hms_text ho mi s @ cls"
    "line = take (index mt) line @ matched mt @ drop (index mt + length (matched mt)) line"
    by blast
  then show ?thesis
    unfolding timestamp_shape_def sublist_def by blast
qed

lemma no_shape_no_match:
  "\<forall>t. timestamp_shape t \<longrightarrow> \<not> sublist t line \<Longrightarrow> rx_exec timestampRegex line = None"
  using match_is_shape by (cases "rx_exec timestampRegex line") auto

text \<open>\<^verbatim>\<open>parseInt\<close> on a digit string, and the value of the timestamp.\<close>

lemma digit_not_space: "is_digit c \<Longrightarrow> \<not> is_space c"
  by (auto simp: is_digit_def is_space_def is_white_space_def is_line_terminator_def
        word_le_nat_alt)

lemma digit_not_sign: "is_digit c \<Longrightarrow> c \<noteq> 0x2B \<and> c \<noteq> 0x2D"
  by (auto simp: is_digit_def)

lemma parseInt_digits:
  assumes "digits ds"
  shows "parseInt ds = to_double (decimal ds)"
proof -
  from assms obtain c cs where ds: "ds = c # cs" and c: "is_digit c"
    by (cases ds) (auto simp: digits_def)
  from assms have t: "takeWhile is_digit ds = ds"
    by (simp add: digits_def list_all_iff)
  from c have "dropWhile is_space ds = ds"
    by (simp add: ds digit_not_space)
  moreover from c have "c \<noteq> 0x2B" "c \<noteq> 0x2D"
    by (simp_all add: digit_not_sign)
  ultimately show ?thesis
    using t by (simp add: parseInt_def ds)
qed

lemma timestamp_value:
  assumes "rx_exec timestampRegex line = Some mt"
    and "timestamp_parts (groups mt) = (h, mi, s)"
    and "digits h" and "digits mi" and "digits s"
  shows "fst (parseFlexibleTimestamps line)
           = num_plus (num_plus (num_times (to_double (decimal h)) 3600)
                                (num_times (to_double (decimal mi)) 60))
                      (to_double (decimal s))"
  using assms
  by (simp add: parseFlexibleTimestamps_def timestamp_parts_def Let_def parseInt_digits)

text \<open>Up to \<open>2 ^ 53\<close> every integer is a double, and the arithmetic of line 72
  is exact as long as the total stays in that range.\<close>

lemma excess_small: "n < 2 ^ 53 \<Longrightarrow> excess n = 0"
  by (simp add: excess.simps)

lemma excess_53: "excess 9007199254740992 = 1"
  by code_simp

lemma round_even_exact:
  assumes "0 \<le> n" and "n \<le> 2 ^ 53"
  shows "round_even n = n"
proof -
  from assms consider "n < 2 ^ 53" | "n = 2 ^ 53"
    by linarith
  then show ?thesis
  proof cases
    case 1
    then show ?thesis
      by (simp add: round_even_def excess_small)
  next
    case 2
    then show ?thesis
      by (simp add: round_even_def excess_53 Let_def)
  qed
qed

lemma to_double_exact: "\<bar>x\<bar> \<le> 2 ^ 53 \<Longrightarrow> to_double x = Num x"
  using round_even_exact [of "\<bar>x\<bar>"] by (simp add: to_double_def Let_def)

text \<open>From \<open>2 ^ 1024\<close> on the Number value is \<^verbatim>\<open>Infinity\<close>, and so is what
  \<^verbatim>\<open>parseInt\<close> returns for a digit string of such a value, for instance one
  of 400 digits \<^verbatim>\<open>9\<close>.\<close>

lemma excess_bounds:
  "2 ^ 53 \<le> n \<Longrightarrow> 2 ^ (52 + excess n) \<le> n \<and> n < 2 ^ (53 + excess n)"
proof (induction n rule: excess.induct)
  case (1 n)
  from "1.prems" have e: "excess n = Suc (excess (n div 2))"
    by (simp add: excess.simps [of n])
  show ?case
  proof (cases "n div 2 < 2 ^ 53")
    case True
    then have "excess (n div 2) = 0"
      by (rule excess_small)
    with True "1.prems" show ?thesis
      by (simp add: e)
  next
    case False
    define P where "P = (2 :: int) ^ excess (n div 2)"
    from False "1.IH" "1.prems" have
      "2 ^ (52 + excess (n div 2)) \<le> n div 2 \<and> n div 2 < 2 ^ (53 + excess (n div 2))"
      by simp
    then have "2 ^ 52 * P \<le> n div 2" "n div 2 < 2 ^ 53 * P"
      by (simp_all add: power_add P_def)
    then have "2 ^ 53 * P \<le> n \<and> n < 2 ^ 54 * P"
      by simp linarith
    then show ?thesis
      by (simp add: e power_add P_def)
  qed
qed

lemma round_even_lower:
  assumes "2 ^ 53 \<le> n"
  shows "2 ^ (52 + excess n) \<le> round_even n"
proof -
  let ?u = "(2 :: int) ^ excess n"
  from excess_bounds [OF assms] have "2 ^ 52 * ?u \<le> n"
    by (simp add: power_add)
  then have "(2 ^ 52 * ?u) div ?u \<le> n div ?u"
    by (intro zdiv_mono1) simp_all
  then have q: "2 ^ 52 \<le> n div ?u"
    by simp
  then have "2 ^ 52 * ?u \<le> (n div ?u) * ?u"
    by (intro mult_right_mono) simp_all
  moreover have "(n div ?u) * ?u \<le> (n div ?u + 1) * ?u"
    by (intro mult_right_mono) simp_all
  ultimately show ?thesis
    by (simp add: round_even_def Let_def power_add)
qed

lemma to_double_overflow:
  assumes "2 ^ 1024 \<le> x"
  shows "to_double x = PosInf"
proof -
  from assms have x: "0 \<le> x" "2 ^ 53 \<le> x"
    by simp_all
  from excess_bounds [OF x(2)] assms have "(2 :: int) ^ 1024 < 2 ^ (53 + excess x)"
    by linarith
  then have "1024 < 53 + excess x"
    by (simp only: power_strict_increasing_iff [of "2 :: int"] one_less_numeral_iff semiring_norm)
  then have "1024 \<le> 52 + excess x"
    by simp
  then have "(2 :: int) ^ 1024 \<le> 2 ^ (52 + excess x)"
    by (intro power_increasing) simp_all
  with round_even_lower [OF x(2)] have "2 ^ 1024 \<le> round_even x"
    by linarith
  with x(1) show ?thesis
    by (simp add: to_double_def Let_def)
qed

lemma parseInt_overflow: "digits ds \<Longrightarrow> 2 ^ 1024 \<le> decimal ds \<Longrightarrow> parseInt ds = PosInf"
  by (simp add: parseInt_digits to_double_overflow)

lemma to_double_400_nines: "to_double (10 ^ 400 - 1) = PosInf"
  by (rule to_double_overflow) simp

lemma digit_value_nonneg: "is_digit c \<Longrightarrow> 0 \<le> digit_value c"
  by (simp add: is_digit_def digit_value_def word_le_def)

lemma foldl_decimal_nonneg:
  "list_all is_digit ds \<Longrightarrow> 0 \<le> acc \<Longrightarrow>
   0 \<le> foldl (\<lambda>acc c. acc * 10 + digit_value c) acc ds"
  by (induction ds arbitrary: acc) (simp_all add: digit_value_nonneg)

lemma decimal_nonneg: "digits ds \<Longrightarrow> 0 \<le> decimal ds"
  by (simp add: digits_def decimal_def foldl_decimal_nonneg)

lemma seconds_exact:
  assumes "0 \<le> h" and "0 \<le> mi" and "0 \<le> s"
    and "h * 3600 + mi * 60 + s \<le> 2 ^ 53"
  shows "num_plus (num_plus (num_times (to_double h) 3600) (num_times (to_double mi) 60))
                  (to_double s)
           = Num (h * 3600 + mi * 60 + s)"
proof -
  from assms have "\<bar>h\<bar> \<le> 2 ^ 53" "\<bar>mi\<bar> \<le> 2 ^ 53" "\<bar>s\<bar> \<le> 2 ^ 53"
                  "\<bar>h * 3600\<bar> \<le> 2 ^ 53" "\<bar>mi * 60\<bar> \<le> 2 ^ 53"
                  "\<bar>h * 3600 + mi * 60\<bar> \<le> 2 ^ 53" "\<bar>h * 3600 + mi * 60 + s\<bar> \<le> 2 ^ 53"
    by simp_all
  then show ?thesis
    by (simp only: to_double_exact num_times_def num_plus_def jsnumber.case prod.case)
qed

lemma timestamp_value_exact:
  assumes "rx_exec timestampRegex line = Some mt"
    and "timestamp_parts (groups mt) = (h, mi, s)"
    and "digits h" and "digits mi" and "digits s"
    and "decimal h * 3600 + decimal mi * 60 + decimal s \<le> 2 ^ 53"
  shows "fst (parseFlexibleTimestamps line)
           = Num (decimal h * 3600 + decimal mi * 60 + decimal s)"
  unfolding timestamp_value [OF assms(1-5)]
  using assms(3-6) by (intro seconds_exact decimal_nonneg)

text \<open>The timestamp is a non-negative integer or \<^verbatim>\<open>Infinity\<close>, never
  \<^verbatim>\<open>NaN\<close>; and it is \<^verbatim>\<open>Infinity\<close> when one of the three digit strings has
  a value of \<open>2 ^ 1024\<close> or more.\<close>

lemma round_even_nonneg: "0 \<le> n \<Longrightarrow> 0 \<le> round_even n"
  by (simp add: round_even_def Let_def pos_imp_zdiv_nonneg_iff)

lemma to_double_nonneg: "0 \<le> x \<Longrightarrow> non_negative (to_double x)"
  using round_even_nonneg [of x] by (simp add: to_double_def Let_def non_negative_def)

lemma num_times_nonneg: "non_negative a \<Longrightarrow> 0 < k \<Longrightarrow> non_negative (num_times a k)"
  by (cases a) (simp_all add: num_times_def non_negative_def [of "Num _"] non_negative_def [of PosInf]
      non_negative_def [of NegInf] non_negative_def [of NaN] to_double_nonneg)

lemma num_plus_nonneg: "non_negative a \<Longrightarrow> non_negative b \<Longrightarrow> non_negative (num_plus a b)"
  by (cases a; cases b)
     (simp_all add: num_plus_def non_negative_def [of "Num _"] non_negative_def [of PosInf]
        non_negative_def [of NegInf] non_negative_def [of NaN] to_double_nonneg)

lemma num_plus_PosInf:
  "non_negative a \<Longrightarrow> num_plus a PosInf = PosInf \<and> num_plus PosInf a = PosInf"
  by (cases a) (simp_all add: num_plus_def non_negative_def)

lemma num_times_PosInf: "0 < k \<Longrightarrow> num_times PosInf k = PosInf"
  by (simp add: num_times_def)

lemma seconds_nonneg:
  assumes "0 \<le> h" and "0 \<le> mi" and "0 \<le> s"
  shows "non_negative (num_plus (num_plus (num_times (to_double h) 3600)
                                           (num_times (to_double mi) 60)) (to_double s))"
  using assms by (intro num_plus_nonneg num_times_nonneg to_double_nonneg) simp_all

lemma seconds_overflow:
  assumes "0 \<le> h" and "0 \<le> mi" and "0 \<le> s"
    and "2 ^ 1024 \<le> h \<or> 2 ^ 1024 \<le> mi \<or> 2 ^ 1024 \<le> s"
  shows "num_plus (num_plus (num_times (to_double h) 3600) (num_times (to_double mi) 60))
                  (to_double s) = PosInf"
proof -
  have H: "non_negative (num_times (to_double h) 3600)"
    and M: "non_negative (num_times (to_double mi) 60)"
    and S: "non_negative (to_double s)"
    using assms(1-3) by (auto intro: num_times_nonneg to_double_nonneg)
  from assms(4) consider "2 ^ 1024 \<le> h" | "2 ^ 1024 \<le> mi" | "2 ^ 1024 \<le> s"
    by blast
  then show ?thesis
  proof cases
    case 1
    then have "num_times (to_double h) 3600 = PosInf"
      by (simp add: to_double_overflow num_times_PosInf)
    with M S show ?thesis
      by (simp add: num_plus_PosInf)
  next
    case 2
    then have "num_times (to_double mi) 60 = PosInf"
      by (simp add: to_double_overflow num_times_PosInf)
    with H S show ?thesis
      by (simp add: num_plus_PosInf)
  next
    case 3
    then have "to_double s = PosInf"
      by (rule to_double_overflow)
    with H M show ?thesis
      by (simp add: num_plus_PosInf num_plus_nonneg)
  qed
qed

lemma timestamp_nonneg: "non_negative (fst (parseFlexibleTimestamps line))"
proof (cases "rx_exec timestampRegex line")
  case None
  then show ?thesis
    by (simp add: parseFlexibleTimestamps_def non_negative_def)
next
  case (Some mt)
  from timestamp_match [OF Some] obtain ho mi s where
    t: "case ho of None \<Rightarrow> True | Some h \<Rightarrow> digits h" "digits mi" "digits s"
       "timestamp_parts (groups mt) = (case ho of None \<Rightarrow> js ''0'' | Some h \<Rightarrow> h, mi, s)"
    by blast
  from t(1) have d: "digits (case ho of None \<Rightarrow> js ''0'' | Some h \<Rightarrow> h)"
    by (cases ho) (simp_all add: digits_zero)
  show ?thesis
    unfolding timestamp_value [OF Some t(4) d t(2) t(3)]
    using d t(2,3) by (intro seconds_nonneg decimal_nonneg)
qed

lemma timestamp_overflow:
  assumes "rx_exec timestampRegex line = Some mt"
    and "timestamp_parts (groups mt) = (h, mi, s)"
    and "2 ^ 1024 \<le> decimal h \<or> 2 ^ 1024 \<le> decimal mi \<or> 2 ^ 1024 \<le> decimal s"
  shows "fst (parseFlexibleTimestamps line) = PosInf"
proof -
  from timestamp_match [OF assms(1)] obtain ho mi' s' where
    t: "case ho of None \<Rightarrow> True | Some h \<Rightarrow> digits h" "digits mi'" "digits s'"
       "timestamp_parts (groups mt) = (case ho of None \<Rightarrow> js ''0'' | Some h \<Rightarrow> h, mi', s')"
    by blast
  from t(1) have "digits (case ho of None \<Rightarrow> js ''0'' | Some h \<Rightarrow> h)"
    by (cases ho) (simp_all add: digits_zero)
  with t assms(2) have d: "digits h" "digits mi" "digits s"
    by simp_all
  show ?thesis
    unfolding timestamp_value [OF assms(1,2) d]
    using d assms(3) by (intro seconds_overflow decimal_nonneg)
qed

text \<open>The rounding at work: exact up to \<open>2 ^ 53\<close>; then to the nearer
  neighbour, to the even one from half-way (down at \<open>2 ^ 53 + 1\<close>, up at
  \<open>2 ^ 53 + 3\<close>); and \<^verbatim>\<open>Infinity\<close> from \<open>2 ^ 1024 - 2 ^ 970\<close> on, half-way
  between the largest double and \<open>2 ^ 1024\<close>.\<close>

lemma to_double_rounding:
  "to_double 9007199254740992 = Num 9007199254740992
   \<and> to_double 9007199254740993 = Num 9007199254740992
   \<and> to_double 9007199254740994 = Num 9007199254740994
   \<and> to_double 9007199254740995 = Num 9007199254740996
   \<and> to_double 18014398509481985 = Num 18014398509481984
   \<and> to_double 18014398509481986 = Num 18014398509481984
   \<and> to_double 18014398509481987 = Num 18014398509481988
   \<and> to_double 18014398509481990 = Num 18014398509481992
   \<and> to_double (- 9007199254740995) = Num (- 9007199254740996)
   \<and> to_double (2 ^ 1024 - 2 ^ 970 - 1) = Num (2 ^ 1024 - 2 ^ 971)
   \<and> to_double (2 ^ 1024 - 2 ^ 970) = PosInf
   \<and> to_double (- (2 ^ 1024 - 2 ^ 970)) = NegInf"
  by code_simp

text \<open>The ordinal pattern \<^verbatim>\<open>/^\d+\.\s*/\<close> removes what \<open>strip_ordinal\<close>
  removes.\<close>

lemma dot_not_digit: "is_digit x \<Longrightarrow> x \<noteq> chr ''.''"
  by (auto simp: is_digit_def chr_def js_def)

lemma dot_code: "\<not> is_digit (chr ''.'')"
  by (simp add: is_digit_def chr_def js_def)

lemma ordinal_rmatch:
  "rmatch False (source ordinalRegex) \<lparr>before = None, remaining = s, caps = g\<rparr>
     = (if takeWhile is_digit s = [] then []
        else rmatch False (Seq (Chr (chr ''.'')) (Star Space))
               (after (takeWhile is_digit s) \<lparr>before = None, remaining = s, caps = g\<rparr>))"
proof -
  let ?K = "rmatch False (Seq (Chr (chr ''.'')) (Star Space))"
  let ?st0 = "\<lparr>before = None, remaining = s, caps = g\<rparr>"
  have k: "?K t = []" if "remaining t = x # xs" "is_digit x" for t x xs
    using that dot_not_digit [of x] by (simp add: class_step_def)
  have "rmatch False (source ordinalRegex) ?st0 = concat (map ?K (rmatch False (some Digit) ?st0))"
    by (simp add: ordinalRegex_def)
  also have "\<dots> = (if takeWhile is_digit (remaining ?st0) = [] then []
                    else ?K (after (takeWhile is_digit (remaining ?st0)) ?st0))"
    by (rule some_digit_then) (rule k)
  finally show ?thesis
    by simp
qed

lemma dot_space_hd:
  assumes "remaining t = chr ''.'' # r"
  shows "\<exists>st rest. rmatch m (Seq (Chr (chr ''.'')) (Star Space)) t = st # rest
           \<and> remaining st = dropWhile is_space r"
proof -
  let ?t1 = "t\<lparr>before := Some (chr ''.''), remaining := r\<rparr>"
  from star_class_hd [of ?t1 "length r" is_space] obtain rest where
    "star_greedy (class_step is_space) (length r) ?t1
       = after (takeWhile is_space (remaining ?t1)) ?t1 # rest"
    by auto
  with assms show ?thesis
    using remaining_after_takeWhile [of is_space ?t1]
    by (simp add: class_step_def rmatch_class_fun)
qed

lemma dot_space_none:
  assumes "\<not> (\<exists>r. remaining t = chr ''.'' # r)"
  shows "rmatch m (Seq (Chr (chr ''.'')) (Star Space)) t = []"
  using assms by (cases "remaining t") (auto simp: class_step_def)

lemma ordinal_anchored: "exec_from ordinalRegex (Some c) s i = None"
  by (rule exec_from_anchored [of _ "cat [some Digit, Chr (chr ''.''), Star Space]"])
     (simp_all add: ordinalRegex_def)

lemma remove_ordinal:
  "remove_first ordinalRegex s = strip_ordinal s"
proof (cases "takeWhile is_digit s \<noteq> [] \<and> (\<exists>r. dropWhile is_digit s = chr ''.'' # r)")
  case True
  then obtain r where r: "takeWhile is_digit s \<noteq> []" "dropWhile is_digit s = chr ''.'' # r"
    by blast
  let ?st0 = "\<lparr>before = None, remaining = s, caps = \<lambda>_. None\<rparr>"
  let ?t = "after (takeWhile is_digit s) ?st0"
  have "remaining ?t = chr ''.'' # r"
    using remaining_after_takeWhile [of is_digit ?st0] r(2) by simp
  from dot_space_hd [OF this] obtain st rest where
    st: "rmatch False (Seq (Chr (chr ''.'')) (Star Space)) ?t = st # rest"
        "remaining st = dropWhile is_space r"
    by blast
  with r(1) have m: "rmatch False (source ordinalRegex) ?st0 = st # rest"
    by (simp add: ordinal_rmatch)
  have s: "s = takeWhile is_digit s @ chr ''.'' # takeWhile is_space r @ dropWhile is_space r"
    using r(2) takeWhile_dropWhile_id [of is_digit s] by simp
  from r(1) obtain x xs where xs: "s = x # xs"
    by (cases s) auto
  have mf: "multiline ordinalRegex = False"
    by (simp add: ordinalRegex_def)
  have "length s - length (dropWhile is_space r)
          = length (takeWhile is_digit s @ chr ''.'' # takeWhile is_space r)"
    by (subst s) (simp del: takeWhile_dropWhile_id)
  then have "drop (length s - length (dropWhile is_space r)) s = dropWhile is_space r"
    by (subst (2) s) (simp del: takeWhile_dropWhile_id)
  with m st(2) xs mf have "remove_first ordinalRegex s = dropWhile is_space r"
    by (simp add: remove_first_def rx_exec_def)
  with r show ?thesis
    by (simp add: strip_ordinal_def)
next
  case False
  let ?st0 = "\<lparr>before = None, remaining = s, caps = \<lambda>_. None\<rparr>"
  let ?t = "after (takeWhile is_digit s) ?st0"
  have "rmatch False (source ordinalRegex) ?st0 = []"
  proof (cases "takeWhile is_digit s = []")
    case True
    then show ?thesis
      by (simp add: ordinal_rmatch)
  next
    case nonempty: False
    with False have "\<not> (\<exists>r. remaining ?t = chr ''.'' # r)"
      using remaining_after_takeWhile [of is_digit ?st0] by simp
    from dot_space_none [OF this] nonempty show ?thesis
      by (simp add: ordinal_rmatch)
  qed
  moreover have "multiline ordinalRegex = False"
    by (simp add: ordinalRegex_def)
  ultimately have "rx_exec ordinalRegex s = None"
    by (cases s) (simp_all add: rx_exec_def ordinal_anchored)
  with False show ?thesis
    by (auto simp: remove_first_def strip_ordinal_def split: list.splits)
qed

lemma strip_ordinal_digits:
  assumes "digits ds"
  shows "strip_ordinal (ds @ chr ''.'' # rest) = dropWhile is_space rest"
proof -
  from assms have a: "\<And>x. x \<in> set ds \<Longrightarrow> is_digit x" and n: "ds \<noteq> []"
    by (simp_all add: digits_def list_all_iff)
  from a have "takeWhile is_digit (ds @ chr ''.'' # rest) = ds"
    by (simp add: dot_code)
  moreover from a have "dropWhile is_digit (ds @ chr ''.'' # rest) = chr ''.'' # rest"
    by (simp add: dot_code)
  ultimately show ?thesis
    using n by (simp add: strip_ordinal_def)
qed

lemma strip_ordinal_other:
  assumes "\<not> (\<exists>ds rest. digits ds \<and> s = ds @ chr ''.'' # rest)"
  shows "strip_ordinal s = s"
proof (rule ccontr)
  assume "strip_ordinal s \<noteq> s"
  then obtain rest where
    r: "takeWhile is_digit s \<noteq> []" "dropWhile is_digit s = chr ''.'' # rest"
    by (auto simp: strip_ordinal_def split: list.splits if_splits)
  have "digits (takeWhile is_digit s)"
    using r(1) by (auto simp: digits_def list_all_iff dest: set_takeWhileD)
  moreover have "s = takeWhile is_digit s @ chr ''.'' # rest"
    using takeWhile_dropWhile_id [of is_digit s] r(2) by simp
  ultimately show False
    using assms by blast
qed

text \<open>The Brackets start pattern, and the Postfix line pattern on a line that
  ends in a carriage return.\<close>

lemma bracketsStart_prefix:
  "rx_test bracketsStart l \<longleftrightarrow> prefix (js ''[0:00]'') l \<or> prefix (js ''[00:00]'') l"
proof -
  have src: "source bracketsStart =
        Seq Bol (cat [Chr (chr ''[''),
                     Alt (cat [Opt (Chr (chr ''0'')), lit ''0:00'']) (lit ''00:00''),
                     Chr (chr '']'')])"
    by (simp add: bracketsStart_def)
  have m: "\<not> multiline bracketsStart"
    by (simp add: bracketsStart_def)
  have "(\<exists>st. st \<in> set (rmatch False (cat [Chr (chr ''[''),
                     Alt (cat [Opt (Chr (chr ''0'')), lit ''0:00'']) (lit ''00:00''),
                     Chr (chr '']'')]) \<lparr>before = None, remaining = l, caps = \<lambda>_. None\<rparr>))
       \<longleftrightarrow> (\<exists>r. l = js ''[0:00]'' @ r) \<or> (\<exists>r. l = js ''[00:00]'' @ r)"
    apply (simp add: lit_def js_def chr_def class_step_mem class_step_bex)
    apply (rule iffI)
     apply (elim exE conjE disjE; simp)
    apply (elim exE conjE disjE; simp)
    done
  then show ?thesis
    unfolding rx_test_anchored [OF m src] prefix_def .
qed

lemma hms_eol_last_digit:
  assumes "st' \<in> set (rmatch False (Seq (hms a b c) Eol) t)"
  shows "remaining t \<noteq> [] \<and> is_digit (last (remaining t))"
proof -
  from assms obtain u where u: "u \<in> set (rmatch False (hms a b c) t)" "st' \<in> set (rmatch False Eol u)"
    by auto
  from hms_mem [OF u(1)] eol_mem [OF u(2)] obtain ho mi s where
    "digits s" "remaining t = hms_text ho mi s"
    by auto
  then show ?thesis
    by (auto simp: hms_text_def digits_def list_all_iff)
qed

lemma suffix_last: "suffix xs ys \<Longrightarrow> xs \<noteq> [] \<Longrightarrow> last xs = last ys"
  by (auto simp: suffix_def)

lemma cr_not_digit: "\<not> is_digit 0x0D"
  by (simp add: is_digit_def)

lemma postfixRx_no_match_before_cr:
  assumes "suffix s' (l @ [0x0D])"
  shows "rmatch False (source postfixRx) \<lparr>before = p, remaining = s', caps = \<lambda>_. None\<rparr> = []"
proof (rule ccontr)
  let ?st0 = "\<lparr>before = p, remaining = s', caps = \<lambda>_. None\<rparr>"
  have src: "source postfixRx = Seq Bol (Seq track (Seq (Group 1 (Lazy Dot)) (Seq (some Space)
                  (Seq (hms 2 3 4) Eol))))"
    by (simp add: postfixRx_def)
  assume "rmatch False (source postfixRx) ?st0 \<noteq> []"
  then obtain st where
    "st \<in> set (rmatch False (Seq Bol (Seq track (Seq (Group 1 (Lazy Dot)) (Seq (some Space)
                  (Seq (hms 2 3 4) Eol))))) ?st0)"
    unfolding src nonempty_iff by blast
  from seq_mem_suffix [OF this, unfolded mstate.select_convs] obtain t1 where
    t1: "suffix (remaining t1) s'"
        "st \<in> set (rmatch False (Seq track (Seq (Group 1 (Lazy Dot)) (Seq (some Space)
                  (Seq (hms 2 3 4) Eol)))) t1)"
    by blast
  from seq_mem_suffix [OF t1(2)] obtain t2 where
    t2: "suffix (remaining t2) (remaining t1)"
        "st \<in> set (rmatch False (Seq (Group 1 (Lazy Dot)) (Seq (some Space)
                  (Seq (hms 2 3 4) Eol))) t2)"
    by blast
  from seq_mem_suffix [OF t2(2)] obtain t3 where
    t3: "suffix (remaining t3) (remaining t2)"
        "st \<in> set (rmatch False (Seq (some Space) (Seq (hms 2 3 4) Eol)) t3)"
    by blast
  from seq_mem_suffix [OF t3(2)] obtain t4 where
    t4: "suffix (remaining t4) (remaining t3)"
        "st \<in> set (rmatch False (Seq (hms 2 3 4) Eol) t4)"
    by blast
  from t1(1) t2(1) t3(1) t4(1) assms have "suffix (remaining t4) (l @ [0x0D])"
    by (meson suffix_order.trans)
  with hms_eol_last_digit [OF t4(2)] have "is_digit 0x0D"
    using suffix_last [of "remaining t4" "l @ [0x0D]"] by simp
  with cr_not_digit show False ..
qed

lemma postfixRx_rejects_cr: "\<not> rx_test postfixRx (l @ [0x0D])"
proof -
  have "multiline postfixRx = False"
    by (simp add: postfixRx_def)
  then have "exec_from postfixRx None (l @ [0x0D]) 0 = None"
    by (intro exec_from_NoneI) (simp only: postfixRx_no_match_before_cr)
  then show ?thesis
    by (simp add: rx_test_def rx_exec_def)
qed

text \<open>The Postfix-Paren line pattern ends in \<^verbatim>\<open>\)$\<close> and accepts no line
  that ends in a carriage return either.\<close>

lemma postfixParenRx_no_match_before_cr:
  assumes "suffix s' (l @ [0x0D])"
  shows "rmatch False (source postfixParenRx) \<lparr>before = p, remaining = s', caps = \<lambda>_. None\<rparr> = []"
proof (rule ccontr)
  let ?st0 = "\<lparr>before = p, remaining = s', caps = \<lambda>_. None\<rparr>"
  have src: "source postfixParenRx
               = cat ([Bol, track, Group 1 (Lazy Dot), some Space, Chr (chr ''(''), Star Space,
                       hms 2 3 4, Star Space] @ [Chr (chr '')''), Eol])"
    by (simp add: postfixParenRx_def)
  assume "rmatch False (source postfixParenRx) ?st0 \<noteq> []"
  then obtain st where "st \<in> set (rmatch False (source postfixParenRx) ?st0)"
    unfolding nonempty_iff by blast
  from cat_last_two [OF this [unfolded src]] obtain u where
    u: "suffix (remaining u) s'" "st \<in> set (rmatch False (Seq (Chr (chr '')'')) Eol) u)"
    by auto
  from u(1) assms have "suffix (remaining u) (l @ [0x0D])"
    by (rule suffix_order.trans)
  with chr_eol_mem [OF u(2)] have "chr '')'' = (0x0D :: jschar)"
    using suffix_last [of "remaining u" "l @ [0x0D]"] by simp
  then show False
    by (simp add: chr_def js_def)
qed

lemma postfixParenRx_rejects_cr: "\<not> rx_test postfixParenRx (l @ [0x0D])"
proof -
  have "multiline postfixParenRx = False"
    by (simp add: postfixParenRx_def)
  then have "exec_from postfixParenRx None (l @ [0x0D]) 0 = None"
    by (intro exec_from_NoneI) (simp only: postfixParenRx_no_match_before_cr)
  then show ?thesis
    by (simp add: rx_test_def rx_exec_def)
qed

text \<open>
  The four other line patterns end in the title, \<^verbatim>\<open>\s+(.*?)$\<close> or
  \<^verbatim>\<open>\s+(.*)$\<close>. The carriage return is white space and no character that
  \<^verbatim>\<open>.\<close> accepts, so such a pattern matches a line that ends in a carriage
  return only when the white space after the timestamp reaches the end of the
  line: the title it captures is empty.
\<close>

lemma cr_line_terminator: "is_line_terminator 0x0D"
  by (simp add: is_line_terminator_def)

lemma title_last_cr:
  assumes "source rx = cat (rs @ [Group k X, Eol])" and "X = Lazy Dot \<or> X = Star Dot"
    and "\<not> multiline rx" and "rx_exec rx (l @ [0x0D]) = Some mt"
  shows "groups mt k = Some []"
proof -
  from exec_from_Some [OF assms(4) [unfolded rx_exec_def]] obtain pre st rest where
    r: "rmatch (multiline rx) (source rx)
          \<lparr>before = (if pre = [] then None else Some (last pre)),
           remaining = matched mt @ remaining st, caps = \<lambda>_. None\<rparr> = st # rest"
    and l: "l @ [0x0D] = pre @ matched mt @ remaining st"
    and g: "groups mt = caps st"
    by auto
  let ?st0 = "\<lparr>before = (if pre = [] then None else Some (last pre)),
           remaining = matched mt @ remaining st, caps = \<lambda>_. None\<rparr>"
  from r assms(1,3) have "st \<in> set (rmatch False (cat (rs @ [Group k X, Eol])) ?st0)"
    by simp
  from cat_last_two [OF this] obtain u where
    u: "suffix (remaining u) (matched mt @ remaining st)"
       "st \<in> set (rmatch False (Seq (Group k X) Eol) u)"
    by auto
  from title_eol_mem [OF assms(2) u(2)] have
    t: "list_all (\<lambda>x. \<not> is_line_terminator x) (remaining u)" "caps st k = Some (remaining u)"
    by simp_all
  from u(1) l have s: "suffix (remaining u) (l @ [0x0D])"
    by (metis suffix_appendI suffix_order.refl suffix_order.trans suffixI)
  have "remaining u = []"
  proof (rule ccontr)
    assume n: "remaining u \<noteq> []"
    with suffix_last [OF s] have "last (remaining u) = 0x0D"
      by simp
    with n t(1) cr_line_terminator show False
      by (metis last_in_set list_all_iff)
  qed
  with t(2) g show ?thesis
    by simp
qed

lemma title_last_patterns_cr:
  assumes "rx \<in> set [lawfulLine, bracketsLine, parensLine, prefixRx]"
    and "rx_exec rx (l @ [0x0D]) = Some mt"
  shows "groups mt 4 = Some []"
proof -
  have "groups mt 4 = Some []" if "rx_exec lawfulLine (l @ [0x0D]) = Some mt"
    using that title_last_cr [of lawfulLine "[Bol, hms 1 2 3, some Space]" 4 "Lazy Dot" l mt]
    by (simp add: lawfulLine_def)
  moreover have "groups mt 4 = Some []" if "rx_exec bracketsLine (l @ [0x0D]) = Some mt"
    using that title_last_cr [of bracketsLine
        "[Bol, Chr (chr ''[''), hms 1 2 3, Chr (chr '']''), some Space]" 4 "Lazy Dot" l mt]
    by (simp add: bracketsLine_def)
  moreover have "groups mt 4 = Some []" if "rx_exec parensLine (l @ [0x0D]) = Some mt"
    using that title_last_cr [of parensLine
        "[Bol, Chr (chr ''(''), hms 1 2 3, Chr (chr '')''), some Space]" 4 "Lazy Dot" l mt]
    by (simp add: parensLine_def)
  moreover have "groups mt 4 = Some []" if "rx_exec prefixRx (l @ [0x0D]) = Some mt"
    using that title_last_cr [of prefixRx "[Bol, track, hms 1 2 3, some Space]" 4 "Star Dot" l mt]
    by (simp add: prefixRx_def)
  ultimately show ?thesis
    using assms by auto
qed

section \<open>The timestamp extractor: claims C2, C5, C6 and C9\<close>

text \<open>
  Claim C2, as amended. When the extractor finds a timestamp in a line, the
  text it matched is one of the three shapes around \<^verbatim>\<open>(H:)M:S\<close>, where the
  hours (when present), the minutes and the seconds are non-empty digit strings
  of the line; these strings, with \<^verbatim>\<open>0\<close> for absent hours, are what
  \<^verbatim>\<open>parseInt\<close> reads, and the timestamp that is returned is
  \<open>hours * 3600 + minutes * 60 + seconds\<close> in the arithmetic of doubles, each
  step rounded. Whenever the exact total of the three decimal values is at most
  \<open>2 ^ 53\<close>, the timestamp is that total; in every case it is a non-negative
  integer or \<^verbatim>\<open>Infinity\<close>. Nothing bounds the minutes or the seconds at
  60: \<^verbatim>\<open>1:99\<close> gives 159. The lines \<^verbatim>\<open>1:02:03 Intro\<close> and
  \<^verbatim>\<open>2:05 Chapter Two\<close> give 3723 and 125, also as the starts of the chapters
  that the exported function returns.
\<close>

theorem C2_total_seconds:
  "(rx_exec timestampRegex line = Some mt \<longrightarrow>
      (\<exists>ho mi s opn cls.
         (case ho of None \<Rightarrow> True | Some h \<Rightarrow> digits h) \<and> digits mi \<and> digits s
         \<and> enclosure opn cls
         \<and> matched mt = opn @ hms_text ho mi s @ cls
         \<and> line = take (index mt) line @ matched mt
                    @ drop (index mt + length (matched mt)) line
         \<and> timestamp_parts (groups mt) = (case ho of None \<Rightarrow> js ''0'' | Some h \<Rightarrow> h, mi, s)
         \<and> fst (parseFlexibleTimestamps line)
             = num_plus
                 (num_plus
                    (num_times (to_double (case ho of None \<Rightarrow> 0 | Some h \<Rightarrow> decimal h)) 3600)
                    (num_times (to_double (decimal mi)) 60))
                 (to_double (decimal s))))
   \<and> (rx_exec timestampRegex line = Some mt
        \<and> timestamp_parts (groups mt) = (hours, minutes, seconds)
        \<and> decimal hours * 3600 + decimal minutes * 60 + decimal seconds \<le> 2 ^ 53 \<longrightarrow>
      fst (parseFlexibleTimestamps line)
        = Num (decimal hours * 3600 + decimal minutes * 60 + decimal seconds))
   \<and> non_negative (fst (parseFlexibleTimestamps line))
   \<and> parseFlexibleTimestamps (js ''1:02:03 Intro'') = (Num 3723, js ''Intro'')
   \<and> parseFlexibleTimestamps (js ''2:05 Chapter Two'') = (Num 125, js ''Chapter Two'')
   \<and> parseFlexibleTimestamps (js ''1:99'') = (Num 159, [])
   \<and> map start (parseYouTubeChapters
                    (js ''0:00 Start\<newline>1:02:03 Intro\<newline>2:05 Chapter Two\<newline>1:99 End''))
       = [Num 0, Num 3723, Num 125, Num 159]"
proof (intro conjI impI)
  assume a: "rx_exec timestampRegex line = Some mt"
  from timestamp_match [OF a] obtain ho mi s opn cls where
    t: "case ho of None \<Rightarrow> True | Some h \<Rightarrow> digits h" "digits mi" "digits s"
       "enclosure opn cls" "matched mt = opn @ hms_text ho mi s @ cls"
       "line = take (index mt) line @ matched mt @ drop (index mt + length (matched mt)) line"
       "timestamp_parts (groups mt) = (case ho of None \<Rightarrow> js ''0'' | Some h \<Rightarrow> h, mi, s)"
    by blast
  from t(1) have "digits (case ho of None \<Rightarrow> js ''0'' | Some h \<Rightarrow> h)"
    by (cases ho) (simp_all add: digits_zero)
  from timestamp_value [OF a t(7) this t(2) t(3)]
  have "fst (parseFlexibleTimestamps line)
          = num_plus
              (num_plus
                 (num_times (to_double (case ho of None \<Rightarrow> 0 | Some h \<Rightarrow> decimal h)) 3600)
                 (num_times (to_double (decimal mi)) 60))
              (to_double (decimal s))"
    by (cases ho) (simp_all add: decimal_zero)
  with t show "\<exists>ho mi s opn cls.
         (case ho of None \<Rightarrow> True | Some h \<Rightarrow> digits h) \<and> digits mi \<and> digits s
         \<and> enclosure opn cls
         \<and> matched mt = opn @ hms_text ho mi s @ cls
         \<and> line = take (index mt) line @ matched mt
                    @ drop (index mt + length (matched mt)) line
         \<and> timestamp_parts (groups mt) = (case ho of None \<Rightarrow> js ''0'' | Some h \<Rightarrow> h, mi, s)
         \<and> fst (parseFlexibleTimestamps line)
             = num_plus
                 (num_plus
                    (num_times (to_double (case ho of None \<Rightarrow> 0 | Some h \<Rightarrow> decimal h)) 3600)
                    (num_times (to_double (decimal mi)) 60))
                 (to_double (decimal s))"
    by blast
next
  assume b: "rx_exec timestampRegex line = Some mt
        \<and> timestamp_parts (groups mt) = (hours, minutes, seconds)
        \<and> decimal hours * 3600 + decimal minutes * 60 + decimal seconds \<le> 2 ^ 53"
  from timestamp_match [of line mt] b obtain ho mi s where
    t: "case ho of None \<Rightarrow> True | Some h \<Rightarrow> digits h" "digits mi" "digits s"
       "timestamp_parts (groups mt) = (case ho of None \<Rightarrow> js ''0'' | Some h \<Rightarrow> h, mi, s)"
    by blast
  from t(1) have "digits (case ho of None \<Rightarrow> js ''0'' | Some h \<Rightarrow> h)"
    by (cases ho) (simp_all add: digits_zero)
  with t b have "digits hours" "digits minutes" "digits seconds"
    by simp_all
  with b show "fst (parseFlexibleTimestamps line)
        = Num (decimal hours * 3600 + decimal minutes * 60 + decimal seconds)"
    by (intro timestamp_value_exact [of line mt]) simp_all
next
  show "non_negative (fst (parseFlexibleTimestamps line))"
    by (rule timestamp_nonneg)
  show "parseFlexibleTimestamps (js ''1:02:03 Intro'') = (Num 3723, js ''Intro'')"
    by code_simp
  show "parseFlexibleTimestamps (js ''2:05 Chapter Two'') = (Num 125, js ''Chapter Two'')"
    by code_simp
  show "parseFlexibleTimestamps (js ''1:99'') = (Num 159, [])"
    by code_simp
  show "map start (parseYouTubeChapters
                    (js ''0:00 Start\<newline>1:02:03 Intro\<newline>2:05 Chapter Two\<newline>1:99 End''))
       = [Num 0, Num 3723, Num 125, Num 159]"
    by code_simp
qed

text \<open>In \<^verbatim>\<open>see 1:99 here\<close> the extractor finds \<^verbatim>\<open>1:99\<close>; \<^verbatim>\<open>parseInt\<close>
  reads \<^verbatim>\<open>0\<close>, \<^verbatim>\<open>1\<close> and \<^verbatim>\<open>99\<close>, the total is 159, and 159 is
  returned.\<close>

theorem C2_total_seconds_witness:
  "\<exists>mt. rx_exec timestampRegex (js ''see 1:99 here'') = Some mt
     \<and> timestamp_parts (groups mt) = (js ''0'', js ''1'', js ''99'')
     \<and> decimal (js ''0'') * 3600 + decimal (js ''1'') * 60 + decimal (js ''99'') = 159
     \<and> (159 :: int) \<le> 2 ^ 53
     \<and> fst (parseFlexibleTimestamps (js ''see 1:99 here'')) = Num 159
     \<and> (\<exists>ho mi s opn cls.
         (case ho of None \<Rightarrow> True | Some h \<Rightarrow> digits h) \<and> digits mi \<and> digits s
         \<and> enclosure opn cls
         \<and> matched mt = opn @ hms_text ho mi s @ cls
         \<and> js ''see 1:99 here'' = take (index mt) (js ''see 1:99 here'') @ matched mt
                    @ drop (index mt + length (matched mt)) (js ''see 1:99 here'')
         \<and> timestamp_parts (groups mt) = (case ho of None \<Rightarrow> js ''0'' | Some h \<Rightarrow> h, mi, s)
         \<and> fst (parseFlexibleTimestamps (js ''see 1:99 here''))
             = num_plus
                 (num_plus
                    (num_times (to_double (case ho of None \<Rightarrow> 0 | Some h \<Rightarrow> decimal h)) 3600)
                    (num_times (to_double (decimal mi)) 60))
                 (to_double (decimal s)))"
proof -
  have "map_option (\<lambda>mt. timestamp_parts (groups mt))
          (rx_exec timestampRegex (js ''see 1:99 here'')) = Some (js ''0'', js ''1'', js ''99'')"
    by code_simp
  then obtain mt where
    mt: "rx_exec timestampRegex (js ''see 1:99 here'') = Some mt"
        "timestamp_parts (groups mt) = (js ''0'', js ''1'', js ''99'')"
    by auto
  have d: "decimal (js ''0'') * 3600 + decimal (js ''1'') * 60 + decimal (js ''99'') = 159"
    by code_simp
  have e: "(159 :: int) \<le> 2 ^ 53"
    by simp
  note c = C2_total_seconds [of "js ''see 1:99 here''" mt "js ''0''" "js ''1''" "js ''99''"]
  from c mt d e have v: "fst (parseFlexibleTimestamps (js ''see 1:99 here'')) = Num 159"
    by simp
  from c mt(1) have "\<exists>ho mi s opn cls.
         (case ho of None \<Rightarrow> True | Some h \<Rightarrow> digits h) \<and> digits mi \<and> digits s
         \<and> enclosure opn cls
         \<and> matched mt = opn @ hms_text ho mi s @ cls
         \<and> js ''see 1:99 here'' = take (index mt) (js ''see 1:99 here'') @ matched mt
                    @ drop (index mt + length (matched mt)) (js ''see 1:99 here'')
         \<and> timestamp_parts (groups mt) = (case ho of None \<Rightarrow> js ''0'' | Some h \<Rightarrow> h, mi, s)
         \<and> fst (parseFlexibleTimestamps (js ''see 1:99 here''))
             = num_plus
                 (num_plus
                    (num_times (to_double (case ho of None \<Rightarrow> 0 | Some h \<Rightarrow> decimal h)) 3600)
                    (num_times (to_double (decimal mi)) 60))
                 (to_double (decimal s))"
    by blast
  with mt d e v show ?thesis
    by blast
qed

text \<open>
  The claim as stated, for every line, fails where the total is no double. In
  \<^verbatim>\<open>0:9007199254740993 x\<close> the seconds are \<open>2 ^ 53 + 1\<close>, which
  \<^verbatim>\<open>parseInt\<close> rounds to \<open>2 ^ 53\<close>; in the second line of
  \<^verbatim>\<open>0:00 a\n2501999792984:00:01 b\<close> the three values are doubles and their
  total, 9007199254742401, is not: the chapter starts at 9007199254742400.
\<close>

theorem C2_counterexample:
  "map_option (\<lambda>mt. timestamp_parts (groups mt))
       (rx_exec timestampRegex (js ''0:9007199254740993 x''))
     = Some (js ''0'', js ''0'', js ''9007199254740993'')
   \<and> decimal (js ''0'') * 3600 + decimal (js ''0'') * 60 + decimal (js ''9007199254740993'')
     = 9007199254740993
   \<and> fst (parseFlexibleTimestamps (js ''0:9007199254740993 x'')) = Num 9007199254740992
   \<and> map_option (\<lambda>mt. timestamp_parts (groups mt))
       (rx_exec timestampRegex (js ''2501999792984:00:01 b''))
     = Some (js ''2501999792984'', js ''00'', js ''01'')
   \<and> decimal (js ''2501999792984'') * 3600 + decimal (js ''00'') * 60 + decimal (js ''01'')
     = 9007199254742401
   \<and> parseYouTubeChapters (js ''0:00 a\<newline>2501999792984:00:01 b'')
     = [\<lparr>start = Num 0, title = js ''a''\<rparr>, \<lparr>start = Num 9007199254742400, title = js ''b''\<rparr>]"
  by code_simp

text \<open>
  Claim C5. For a line in which the pattern of the extractor finds nothing, and
  so for every line in which no text of one of the three shapes occurs, the
  extractor returns the timestamp 0 and the whole line, unchanged, as title.
\<close>

theorem C5_no_timestamp:
  "(rx_exec timestampRegex line = None \<longrightarrow>
      parseFlexibleTimestamps line = (Num 0, line))
   \<and> (\<not> (\<exists>t. timestamp_shape t \<and> sublist t line) \<longrightarrow>
      parseFlexibleTimestamps line = (Num 0, line))"
proof (intro conjI impI)
  assume "rx_exec timestampRegex line = None"
  then show "parseFlexibleTimestamps line = (Num 0, line)"
    by (simp add: parseFlexibleTimestamps_def)
next
  assume "\<not> (\<exists>t. timestamp_shape t \<and> sublist t line)"
  then have "rx_exec timestampRegex line = None"
    by (intro no_shape_no_match) blast
  then show "parseFlexibleTimestamps line = (Num 0, line)"
    by (simp add: parseFlexibleTimestamps_def)
qed

theorem C5_no_timestamp_witness:
  "rx_exec timestampRegex (js ''  Thanks for watching! '') = None
   \<and> \<not> (\<exists>t. timestamp_shape t \<and> sublist t (js ''  Thanks for watching! ''))
   \<and> parseFlexibleTimestamps (js ''  Thanks for watching! '')
       = (Num 0, js ''  Thanks for watching! '')"
proof -
  have "chr '':'' \<notin> set (js ''  Thanks for watching! '')"
    by code_simp
  then have n: "\<not> (\<exists>t. timestamp_shape t \<and> sublist t (js ''  Thanks for watching! ''))"
    using shape_has_colon set_mono_sublist by blast
  then have "rx_exec timestampRegex (js ''  Thanks for watching! '') = None"
    by (intro no_shape_no_match) blast
  with n C5_no_timestamp [of "js ''  Thanks for watching! ''"] show ?thesis
    by blast
qed

text \<open>
  Claim C6, as amended. The title is what is left of the line when the matched
  timestamp is cut out, without a leading ordinal, trimmed. The ordinal that is
  removed is a non-empty run of digits at the very start of that text, the dot
  after it, and all the white space that follows the dot, if any: the prefix
  goes whether or not white space follows the dot, and a text that does not start
  with digits and a dot is left as it is. The extractor is the same for every
  format, so this holds for every format: the line \<^verbatim>\<open>1. 0:00 Intro\<close> gives
  the title \<^verbatim>\<open>Intro\<close>.
\<close>

theorem C6_ordinal_stripped:
  "(rx_exec timestampRegex line = Some mt \<longrightarrow>
      snd (parseFlexibleTimestamps line)
        = trim (remove_first ordinalRegex
                  (take (index mt) line @ drop (index mt + length (matched mt)) line)))
   \<and> (digits ds \<longrightarrow>
        remove_first ordinalRegex (ds @ chr ''.'' # rest) = dropWhile is_space rest)
   \<and> (\<not> (\<exists>ds rest. digits ds \<and> s = ds @ chr ''.'' # rest) \<longrightarrow>
        remove_first ordinalRegex s = s)
   \<and> parseFlexibleTimestamps (js ''1. 0:00 Intro'') = (Num 0, js ''Intro'')
   \<and> prefixParser (js ''1. 0:00 Intro'') = [\<lparr>start = Num 0, title = js ''Intro''\<rparr>]"
proof (intro conjI impI)
  assume "rx_exec timestampRegex line = Some mt"
  then show "snd (parseFlexibleTimestamps line)
        = trim (remove_first ordinalRegex
                  (take (index mt) line @ drop (index mt + length (matched mt)) line))"
    by (simp add: parseFlexibleTimestamps_def Let_def remove_first_def)
next
  assume "digits ds"
  then show "remove_first ordinalRegex (ds @ chr ''.'' # rest) = dropWhile is_space rest"
    by (simp add: remove_ordinal strip_ordinal_digits)
next
  assume "\<not> (\<exists>ds rest. digits ds \<and> s = ds @ chr ''.'' # rest)"
  then show "remove_first ordinalRegex s = s"
    unfolding remove_ordinal by (rule strip_ordinal_other)
next
  show "parseFlexibleTimestamps (js ''1. 0:00 Intro'') = (Num 0, js ''Intro'')"
    by code_simp
  show "prefixParser (js ''1. 0:00 Intro'') = [\<lparr>start = Num 0, title = js ''Intro''\<rparr>]"
    by code_simp
qed

theorem C6_ordinal_stripped_witness:
  "(\<exists>mt. rx_exec timestampRegex (js ''7. Outro 9:15'') = Some mt
      \<and> snd (parseFlexibleTimestamps (js ''7. Outro 9:15''))
          = trim (remove_first ordinalRegex
                    (take (index mt) (js ''7. Outro 9:15'')
                     @ drop (index mt + length (matched mt)) (js ''7. Outro 9:15''))))
   \<and> digits (js ''12'')
   \<and> remove_first ordinalRegex (js ''12'' @ chr ''.'' # js ''  x '') = js ''x ''
   \<and> \<not> (\<exists>ds rest. digits ds \<and> js ''Intro 1.'' = ds @ chr ''.'' # rest)
   \<and> remove_first ordinalRegex (js ''Intro 1.'') = js ''Intro 1.''"
proof -
  have "rx_test timestampRegex (js ''7. Outro 9:15'')"
    by code_simp
  then obtain mt where mt: "rx_exec timestampRegex (js ''7. Outro 9:15'') = Some mt"
    by (auto simp: rx_test_def)
  have d: "digits (js ''12'')"
    by code_simp
  have sp: "dropWhile is_space (js ''  x '') = js ''x ''"
    by code_simp
  have n: "\<not> (\<exists>ds rest. digits ds \<and> js ''Intro 1.'' = ds @ chr ''.'' # rest)"
  proof
    assume "\<exists>ds rest. digits ds \<and> js ''Intro 1.'' = ds @ chr ''.'' # rest"
    then obtain ds rest where "digits ds" "js ''Intro 1.'' = ds @ chr ''.'' # rest"
      by blast
    then have "is_digit (hd (js ''Intro 1.''))"
      by (cases ds) (auto simp: digits_def)
    moreover have "\<not> is_digit (hd (js ''Intro 1.''))"
      by code_simp
    ultimately show False by blast
  qed
  from mt d sp n
    C6_ordinal_stripped [of "js ''7. Outro 9:15''" mt "js ''12''" "js ''  x ''" "js ''Intro 1.''"]
  show ?thesis by auto
qed

text \<open>The claim as stated fails on \<^verbatim>\<open>1.Intro 0:00\<close>: without the timestamp
  the line is \<^verbatim>\<open>1.Intro \<close>, where no white space follows the dot, and the
  title is \<^verbatim>\<open>Intro\<close> all the same.\<close>

theorem C6_counterexample:
  "remove_first timestampRegex (js ''1.Intro 0:00'') = js ''1.Intro ''
   \<and> \<not> is_space (chr ''I'')
   \<and> snd (parseFlexibleTimestamps (js ''1.Intro 0:00'')) = js ''Intro''
   \<and> parseYouTubeChapters (js ''1.Intro 0:00'') = [\<lparr>start = Num 0, title = js ''Intro''\<rparr>]"
  by code_simp

text \<open>
  Claim C9. The extractor takes the first timestamp in the line, wherever the
  line pattern expects it: its pattern matches at no index before the one where
  the reported match starts. The line \<^verbatim>\<open>1:00 to 2:00 recap 5:00\<close> is accepted
  by the Postfix line pattern, whose captures designate the title
  \<^verbatim>\<open>1:00 to 2:00 recap\<close> and the timestamp \<^verbatim>\<open>5:00\<close> at the end of the line;
  the chapter that is produced starts at 60 seconds, the value of \<^verbatim>\<open>1:00\<close>
  found at index 0, and \<^verbatim>\<open>1:00\<close> is what is removed from the title.
\<close>

theorem C9_first_timestamp_wins:
  "(rx_exec timestampRegex line = Some mt \<longrightarrow>
      (\<forall>j<index mt.
         rmatch False (source timestampRegex)
           \<lparr>before = before_at line j, remaining = drop j line, caps = \<lambda>_. None\<rparr> = []))
   \<and> map_option (\<lambda>mt. (groups mt 1, groups mt 2, groups mt 3, groups mt 4))
        (rx_exec postfixRx (js ''1:00 to 2:00 recap 5:00''))
     = Some (Some (js ''1:00 to 2:00 recap''), None, Some (js ''5''), Some (js ''00''))
   \<and> map_option (\<lambda>mt. (index mt, matched mt))
        (rx_exec timestampRegex (js ''1:00 to 2:00 recap 5:00''))
     = Some (0, js ''1:00'')
   \<and> remove_first timestampRegex (js ''1:00 to 2:00 recap 5:00'')
     = js '' to 2:00 recap 5:00''
   \<and> postfixParser (js ''1:00 to 2:00 recap 5:00'')
     = [\<lparr>start = Num 60, title = js ''to 2:00 recap 5:00''\<rparr>]
   \<and> parseYouTubeChapters (js ''1:00 to 2:00 recap 5:00'')
     = [\<lparr>start = Num 60, title = js ''to 2:00 recap 5:00''\<rparr>]"
proof (intro conjI impI allI)
  fix j
  assume "rx_exec timestampRegex line = Some mt" and "j < index mt"
  then show "rmatch False (source timestampRegex)
           \<lparr>before = before_at line j, remaining = drop j line, caps = \<lambda>_. None\<rparr> = []"
    using exec_from_leftmost [of timestampRegex None line 0 mt j]
    by (simp add: rx_exec_def before_at_def timestampRegex_def)
next
  show "map_option (\<lambda>mt. (groups mt 1, groups mt 2, groups mt 3, groups mt 4))
        (rx_exec postfixRx (js ''1:00 to 2:00 recap 5:00''))
     = Some (Some (js ''1:00 to 2:00 recap''), None, Some (js ''5''), Some (js ''00''))"
    by code_simp
  show "map_option (\<lambda>mt. (index mt, matched mt))
        (rx_exec timestampRegex (js ''1:00 to 2:00 recap 5:00''))
     = Some (0, js ''1:00'')"
    by code_simp
  show "remove_first timestampRegex (js ''1:00 to 2:00 recap 5:00'')
     = js '' to 2:00 recap 5:00''"
    by code_simp
  show "postfixParser (js ''1:00 to 2:00 recap 5:00'')
     = [\<lparr>start = Num 60, title = js ''to 2:00 recap 5:00''\<rparr>]"
    by code_simp
  show "parseYouTubeChapters (js ''1:00 to 2:00 recap 5:00'')
     = [\<lparr>start = Num 60, title = js ''to 2:00 recap 5:00''\<rparr>]"
    by code_simp
qed

text \<open>In \<^verbatim>\<open>Part 1:00 to 2:00 recap 5:00\<close> the match starts at index 5, and the
  pattern matches at no index before; index 3 is one of them.\<close>

theorem C9_first_timestamp_wins_witness:
  "\<exists>mt. rx_exec timestampRegex (js ''Part 1:00 to 2:00 recap 5:00'') = Some mt
     \<and> index mt = 5 \<and> matched mt = js ''1:00''
     \<and> rmatch False (source timestampRegex)
          \<lparr>before = before_at (js ''Part 1:00 to 2:00 recap 5:00'') 3,
           remaining = drop 3 (js ''Part 1:00 to 2:00 recap 5:00''),
           caps = \<lambda>_. None\<rparr> = []"
proof -
  have "map_option (\<lambda>mt. (index mt, matched mt))
          (rx_exec timestampRegex (js ''Part 1:00 to 2:00 recap 5:00'')) = Some (5, js ''1:00'')"
    by code_simp
  then obtain mt where
    mt: "rx_exec timestampRegex (js ''Part 1:00 to 2:00 recap 5:00'') = Some mt"
        "index mt = 5" "matched mt = js ''1:00''"
    by auto
  with C9_first_timestamp_wins [of "js ''Part 1:00 to 2:00 recap 5:00''" mt] show ?thesis
    by auto
qed

section \<open>The parser factory and the cascade: claims C1, C3, C4, C7 and C10\<close>

lemma split_lf_line: "0x0A \<notin> set a \<Longrightarrow> split_lf (a @ 0x0A # b) = a # split_lf b"
  by (induction a) auto

lemma chapter_loop_filter:
  "chapter_loop lineRx ls acc = acc @ map chapter_of (filter (rx_test lineRx) ls)"
  by (induction ls arbitrary: acc)
     (auto simp: rx_test_def chapter_of_def split: option.splits prod.splits)

lemma findIndex_None: "findIndex P xs = None \<longleftrightarrow> (\<forall>x\<in>set xs. \<not> P x)"
  by (induction xs) auto

lemma findIndex_Some_drop:
  "findIndex P xs = Some i \<Longrightarrow> drop i xs = dropWhile (\<lambda>x. \<not> P x) xs"
  by (induction xs arbitrary: i) (auto split: if_splits)

lemma findIndex_None_dropWhile:
  "findIndex P xs = None \<Longrightarrow> dropWhile (\<lambda>x. \<not> P x) xs = []"
  by (simp add: findIndex_None)

lemma makeChapterParser_filter:
  "makeChapterParser startRx lineRx ti xi d =
     map chapter_of (filter (rx_test lineRx)
       (dropWhile (\<lambda>l. \<not> rx_test startRx l) (skipEmptyLines d)))"
  by (simp add: makeChapterParser_def Let_def chapter_loop_filter findIndex_Some_drop
        findIndex_None_dropWhile split: option.splits)

lemma makeChapterParser_no_start:
  "\<forall>l\<in>set (skipEmptyLines d). \<not> rx_test startRx l \<Longrightarrow>
   makeChapterParser startRx lineRx ti xi d = []"
proof -
  assume "\<forall>l\<in>set (skipEmptyLines d). \<not> rx_test startRx l"
  then have "dropWhile (\<lambda>l. \<not> rx_test startRx l) (skipEmptyLines d) = []"
    by (induction "skipEmptyLines d") auto
  then show ?thesis
    unfolding makeChapterParser_filter by (simp only: filter.simps list.map)
qed

lemma makeChapterParser_cr_lines:
  assumes "list_all (\<lambda>l. l \<noteq> [] \<and> last l = 0x0D) (skipEmptyLines d)"
    and "\<And>l. \<not> rx_test lineRx (l @ [0x0D])"
  shows "makeChapterParser startRx lineRx ti xi d = []"
proof -
  have "\<not> rx_test lineRx l"
    if "l \<in> set (dropWhile (\<lambda>l. \<not> rx_test startRx l) (skipEmptyLines d))" for l
  proof -
    from that have "l \<in> set (skipEmptyLines d)"
      by (rule set_dropWhileD)
    with assms(1) have "l \<noteq> []" "last l = 0x0D"
      by (simp_all add: list_all_iff)
    then have "l = butlast l @ [0x0D]"
      by (metis append_butlast_last_id)
    with assms(2) [of "butlast l"] show ?thesis
      by metis
  qed
  then have "filter (rx_test lineRx)
               (dropWhile (\<lambda>l. \<not> rx_test startRx l) (skipEmptyLines d)) = []"
    by (simp add: filter_empty_conv)
  then show ?thesis
    unfolding makeChapterParser_filter by (simp only: list.map)
qed

lemma cascade_obj_nonempty:
  "chapters \<noteq> [] \<Longrightarrow> cascade_obj Ps d chapters = (chapters, Ps)"
  by (induction Ps) simp_all

text \<open>
  Claim C1. \<open>parseYouTubeChapters\<close> returns the result of the first of the six
  parsers, taken in the order Lawful, Brackets, Parens, Postfix, Postfix-Paren,
  Prefix, whose result is not empty (and the empty list when all six are
  empty); in particular, when the Lawful and the Prefix parser both give a
  non-empty list, the result is the Lawful one. Once a result is not empty no
  later parser runs: the cascade hands the pattern objects of the later
  parsers back as they are.
\<close>

theorem C1_cascade_order:
  "parseYouTubeChapters d =
     (case filter (\<lambda>r. r \<noteq> [])
             [lawfulParser d, bracketsParser d, parensParser d, postfixParser d,
              postfixParenParser d, prefixParser d] of
        [] \<Rightarrow> []
      | r # _ \<Rightarrow> r)
   \<and> (lawfulParser d \<noteq> [] \<and> prefixParser d \<noteq> [] \<longrightarrow>
        parseYouTubeChapters d = lawfulParser d)
   \<and> (chapters \<noteq> [] \<longrightarrow> cascade_obj Ps d chapters = (chapters, Ps))"
  by (simp add: parseYouTubeChapters_def Let_def cascade_obj_nonempty)

text \<open>On the two lines \<^verbatim>\<open>0:00 Intro\<close> and \<^verbatim>\<open>1. 1:30 Middle\<close> the Lawful
  parser finds one chapter and the Prefix parser two; the cascade returns the
  one of Lawful.\<close>

theorem C1_cascade_order_witness:
  "lawfulParser (js ''0:00 Intro\<newline>1. 1:30 Middle'') \<noteq> []
   \<and> prefixParser (js ''0:00 Intro\<newline>1. 1:30 Middle'') \<noteq> []
   \<and> prefixParser (js ''0:00 Intro\<newline>1. 1:30 Middle'')
       \<noteq> lawfulParser (js ''0:00 Intro\<newline>1. 1:30 Middle'')
   \<and> parseYouTubeChapters (js ''0:00 Intro\<newline>1. 1:30 Middle'')
       = lawfulParser (js ''0:00 Intro\<newline>1. 1:30 Middle'')
   \<and> cascade_obj (tl module_init) (js ''0:00 Intro\<newline>1. 1:30 Middle'')
         [\<lparr>start = Num 0, title = js ''Intro''\<rparr>]
       = ([\<lparr>start = Num 0, title = js ''Intro''\<rparr>], tl module_init)"
proof -
  have l: "lawfulParser (js ''0:00 Intro\<newline>1. 1:30 Middle'')
             = [\<lparr>start = Num 0, title = js ''Intro''\<rparr>]"
    by code_simp
  have p: "prefixParser (js ''0:00 Intro\<newline>1. 1:30 Middle'')
             = [\<lparr>start = Num 0, title = js ''Intro''\<rparr>,
                \<lparr>start = Num 90, title = js ''Middle''\<rparr>]"
    by code_simp
  from l p C1_cascade_order [of "js ''0:00 Intro\<newline>1. 1:30 Middle''"
                                "[\<lparr>start = Num 0, title = js ''Intro''\<rparr>]" "tl module_init"]
  show ?thesis by simp
qed

text \<open>
  Claim C3. A parser built by \<open>makeChapterParser\<close> returns the empty list for
  every description none of whose non-empty lines matches its start pattern;
  and \<open>parseYouTubeChapters\<close> returns the empty list for every description none
  of whose non-empty lines matches any of the six start patterns. Both are
  total functions: there is no error result.
\<close>

theorem C3_no_start_line:
  "((\<forall>l\<in>set (skipEmptyLines d). \<not> rx_test startRx l) \<longrightarrow>
      makeChapterParser startRx lineRx ti xi d = [])
   \<and> ((\<forall>rx\<in>set startPatterns. \<forall>l\<in>set (skipEmptyLines d). \<not> rx_test rx l) \<longrightarrow>
      parseYouTubeChapters d = [])"
  by (simp add: makeChapterParser_no_start parseYouTubeChapters_def Let_def
        startPatterns_def lawfulParser_def bracketsParser_def parensParser_def
        postfixParser_def postfixParenParser_def prefixParser_def)

theorem C3_no_start_line_witness:
  "list_all (\<lambda>l. \<not> rx_test parensStart l)
      (skipEmptyLines (js ''Hello world\<newline>no chapters here''))
   \<and> makeChapterParser parensStart parensLine 0 3
        (js ''Hello world\<newline>no chapters here'') = []
   \<and> list_all (\<lambda>rx. list_all (\<lambda>l. \<not> rx_test rx l)
                      (skipEmptyLines (js ''Hello world\<newline>no chapters here'')))
         startPatterns
   \<and> parseYouTubeChapters (js ''Hello world\<newline>no chapters here'') = []"
proof -
  have a: "list_all (\<lambda>rx. list_all (\<lambda>l. \<not> rx_test rx l)
                       (skipEmptyLines (js ''Hello world\<newline>no chapters here'')))
             startPatterns"
    by code_simp
  then have b: "list_all (\<lambda>l. \<not> rx_test parensStart l)
                  (skipEmptyLines (js ''Hello world\<newline>no chapters here''))"
    by (simp add: startPatterns_def)
  from a b C3_no_start_line
         [of "js ''Hello world\<newline>no chapters here''" parensStart parensLine 0 3]
  show ?thesis by (simp add: list_all_iff)
qed

text \<open>
  Claim C4. A parser built by \<open>makeChapterParser\<close> drops the non-empty lines
  before the first one that matches the start pattern, tests every line from
  there to the end against the line pattern, and returns one chapter for each
  line that matches, in the order of the lines; a line that does not match is
  passed over and the scan goes on. So a sentence after the chapter list
  neither removes the chapters before it nor adds one.
\<close>

theorem C4_scan_skips_other_lines:
  "makeChapterParser startRx lineRx ti xi d =
     map chapter_of
       (filter (rx_test lineRx)
          (dropWhile (\<lambda>l. \<not> rx_test startRx l) (skipEmptyLines d)))
   \<and> lawfulParser (js ''0:00 Intro\<newline>not a chapter\<newline>1:30 Middle\<newline>Thanks for watching!'')
      = [\<lparr>start = Num 0, title = js ''Intro''\<rparr>, \<lparr>start = Num 90, title = js ''Middle''\<rparr>]"
proof
  show "makeChapterParser startRx lineRx ti xi d =
     map chapter_of
       (filter (rx_test lineRx)
          (dropWhile (\<lambda>l. \<not> rx_test startRx l) (skipEmptyLines d)))"
    by (rule makeChapterParser_filter)
  show "lawfulParser (js ''0:00 Intro\<newline>not a chapter\<newline>1:30 Middle\<newline>Thanks for watching!'')
      = [\<lparr>start = Num 0, title = js ''Intro''\<rparr>, \<lparr>start = Num 90, title = js ''Middle''\<rparr>]"
    by code_simp
qed

text \<open>
  Claim C7, as amended. The Brackets start pattern is tested on each non-empty
  line by itself, and a line matches it exactly when it starts with
  \<^verbatim>\<open>[0:00]\<close> or \<^verbatim>\<open>[00:00]\<close>. The Brackets parser scans from the first such
  line, wherever it stands in the description, and returns the empty list when no
  non-empty line starts so.
\<close>

theorem C7_brackets_any_line:
  "rx_test bracketsStart l = brackets_zero l
   \<and> bracketsParser d
       = map chapter_of
           (filter (rx_test bracketsLine)
              (dropWhile (\<lambda>l. \<not> brackets_zero l) (skipEmptyLines d)))
   \<and> (list_all (\<lambda>l. \<not> brackets_zero l) (skipEmptyLines d) \<longrightarrow> bracketsParser d = [])"
proof (intro conjI impI)
  show t: "rx_test bracketsStart l = brackets_zero l" for l
    by (simp add: bracketsStart_prefix brackets_zero_def)
  then have "(\<lambda>l. \<not> rx_test bracketsStart l) = (\<lambda>l. \<not> brackets_zero l)"
    by simp
  then show p: "bracketsParser d
       = map chapter_of
           (filter (rx_test bracketsLine)
              (dropWhile (\<lambda>l. \<not> brackets_zero l) (skipEmptyLines d)))"
    by (simp add: bracketsParser_def makeChapterParser_filter)
  assume "list_all (\<lambda>l. \<not> brackets_zero l) (skipEmptyLines d)"
  then have "\<forall>l\<in>set (skipEmptyLines d). \<not> rx_test bracketsStart l"
    by (simp add: list_all_iff t)
  then show "bracketsParser d = []"
    unfolding bracketsParser_def by (rule makeChapterParser_no_start)
qed

theorem C7_brackets_any_line_witness:
  "list_all (\<lambda>l. \<not> brackets_zero l) (skipEmptyLines (js ''[0:01] Late\<newline>[1:30] Middle''))
   \<and> bracketsParser (js ''[0:01] Late\<newline>[1:30] Middle'') = []"
proof -
  have "list_all (\<lambda>l. \<not> rx_test bracketsStart l)
          (skipEmptyLines (js ''[0:01] Late\<newline>[1:30] Middle''))"
    by code_simp
  then have "list_all (\<lambda>l. \<not> brackets_zero l)
               (skipEmptyLines (js ''[0:01] Late\<newline>[1:30] Middle''))"
    using C7_brackets_any_line by simp
  with C7_brackets_any_line [of _ "js ''[0:01] Late\<newline>[1:30] Middle''"] show ?thesis
    by blast
qed

text \<open>The claim as stated fails when the chapter list is not at the top: the
  first non-empty line below does not match the start pattern and the Brackets
  parser returns two chapters.\<close>

theorem C7_counterexample:
  "skipEmptyLines (js ''Welcome to the show\<newline>\<newline>[0:00] Start\<newline>[1:30] Middle'')
     = [js ''Welcome to the show'', js ''[0:00] Start'', js ''[1:30] Middle'']
   \<and> \<not> rx_test bracketsStart (js ''Welcome to the show'')
   \<and> bracketsParser (js ''Welcome to the show\<newline>\<newline>[0:00] Start\<newline>[1:30] Middle'')
     = [\<lparr>start = Num 0, title = js ''Start''\<rparr>, \<lparr>start = Num 90, title = js ''Middle''\<rparr>]"
  by code_simp

text \<open>
  Claim C10. Lines are split at line feeds only, so a line that is followed by
  CRLF keeps its carriage return. The Postfix and the Postfix-Paren line
  pattern accept no line that ends in a carriage return, and their parsers
  return nothing for a description all of whose non-empty lines end so; the
  four other line patterns accept such a line only with an empty title, that
  is, when nothing but white space follows the timestamp. There are lines that
  give chapters when joined by LF and none when joined by CRLF:
  \<^verbatim>\<open>Intro 0:00\<close> and \<^verbatim>\<open>Thanks\<close> are such lines. The two lines
  \<^verbatim>\<open>Intro 0:00\<close> and \<^verbatim>\<open>Middle Bit 1:30\<close> give two chapters with LF and
  none when each is ended by CRLF, and so do \<^verbatim>\<open>0:00 Intro\<close> and
  \<^verbatim>\<open>1:30 Middle\<close>.
\<close>

theorem C10_crlf:
  "(0x0A \<notin> set a \<longrightarrow> split_lf (a @ [0x0D, 0x0A] @ b) = (a @ [0x0D]) # split_lf b)
   \<and> (\<forall>l. \<not> rx_test postfixRx (l @ [0x0D]) \<and> \<not> rx_test postfixParenRx (l @ [0x0D]))
   \<and> (rx \<in> set [lawfulLine, bracketsLine, parensLine, prefixRx]
        \<and> rx_exec rx (line @ [0x0D]) = Some mt \<longrightarrow>
      groups mt 4 = Some [])
   \<and> (list_all (\<lambda>l. l \<noteq> [] \<and> last l = 0x0D) (skipEmptyLines d) \<longrightarrow>
      postfixParser d = [] \<and> postfixParenParser d = [])
   \<and> (\<exists>lines. list_all (\<lambda>l. 0x0A \<notin> set l \<and> 0x0D \<notin> set l) lines
          \<and> parseYouTubeChapters (join_with [0x0A] lines) \<noteq> []
          \<and> parseYouTubeChapters (join_with [0x0D, 0x0A] lines) = [])
   \<and> parseYouTubeChapters (join_with [0x0A] [js ''Intro 0:00'', js ''Thanks''])
       = [\<lparr>start = Num 0, title = js ''Intro''\<rparr>]
   \<and> parseYouTubeChapters (join_with [0x0D, 0x0A] [js ''Intro 0:00'', js ''Thanks'']) = []
   \<and> parseYouTubeChapters (js ''Intro 0:00\<newline>Middle Bit 1:30'')
       = [\<lparr>start = Num 0, title = js ''Intro''\<rparr>, \<lparr>start = Num 90, title = js ''Middle Bit''\<rparr>]
   \<and> skipEmptyLines (js ''Intro 0:00'' @ [0x0D, 0x0A] @ js ''Middle Bit 1:30'' @ [0x0D, 0x0A])
       = [js ''Intro 0:00'' @ [0x0D], js ''Middle Bit 1:30'' @ [0x0D]]
   \<and> parseYouTubeChapters
         (js ''Intro 0:00'' @ [0x0D, 0x0A] @ js ''Middle Bit 1:30'' @ [0x0D, 0x0A]) = []
   \<and> parseYouTubeChapters (js ''0:00 Intro\<newline>1:30 Middle'')
       = [\<lparr>start = Num 0, title = js ''Intro''\<rparr>, \<lparr>start = Num 90, title = js ''Middle''\<rparr>]
   \<and> parseYouTubeChapters
         (js ''0:00 Intro'' @ [0x0D, 0x0A] @ js ''1:30 Middle'' @ [0x0D, 0x0A]) = []"
proof (intro conjI allI impI)
  assume "0x0A \<notin> set a"
  then have "0x0A \<notin> set (a @ [0x0D])"
    by simp
  from split_lf_line [OF this, of b]
  show "split_lf (a @ [0x0D, 0x0A] @ b) = (a @ [0x0D]) # split_lf b"
    by simp
next
  show "\<not> rx_test postfixRx (l @ [0x0D])" for l
    by (rule postfixRx_rejects_cr)
  show "\<not> rx_test postfixParenRx (l @ [0x0D])" for l
    by (rule postfixParenRx_rejects_cr)
next
  assume "rx \<in> set [lawfulLine, bracketsLine, parensLine, prefixRx]
          \<and> rx_exec rx (line @ [0x0D]) = Some mt"
  then show "groups mt 4 = Some []"
    using title_last_patterns_cr [of rx line mt] by blast
next
  assume c: "list_all (\<lambda>l. l \<noteq> [] \<and> last l = 0x0D) (skipEmptyLines d)"
  then show "postfixParser d = []"
    unfolding postfixParser_def by (rule makeChapterParser_cr_lines) (rule postfixRx_rejects_cr)
  from c show "postfixParenParser d = []"
    unfolding postfixParenParser_def
    by (rule makeChapterParser_cr_lines) (rule postfixParenRx_rejects_cr)
next
  have "list_all (\<lambda>l. 0x0A \<notin> set l \<and> 0x0D \<notin> set l) [js ''Intro 0:00'', js ''Thanks'']"
    by code_simp
  moreover show
    lf: "parseYouTubeChapters (join_with [0x0A] [js ''Intro 0:00'', js ''Thanks''])
           = [\<lparr>start = Num 0, title = js ''Intro''\<rparr>]"
    by code_simp
  moreover show
    crlf: "parseYouTubeChapters (join_with [0x0D, 0x0A] [js ''Intro 0:00'', js ''Thanks'']) = []"
    by code_simp
  ultimately show "\<exists>lines. list_all (\<lambda>l. 0x0A \<notin> set l \<and> 0x0D \<notin> set l) lines
          \<and> parseYouTubeChapters (join_with [0x0A] lines) \<noteq> []
          \<and> parseYouTubeChapters (join_with [0x0D, 0x0A] lines) = []"
    by - (rule exI [of _ "[js ''Intro 0:00'', js ''Thanks'']"], simp)
next
  show "parseYouTubeChapters (js ''Intro 0:00\<newline>Middle Bit 1:30'')
       = [\<lparr>start = Num 0, title = js ''Intro''\<rparr>, \<lparr>start = Num 90, title = js ''Middle Bit''\<rparr>]"
    by code_simp
  show "skipEmptyLines (js ''Intro 0:00'' @ [0x0D, 0x0A] @ js ''Middle Bit 1:30'' @ [0x0D, 0x0A])
       = [js ''Intro 0:00'' @ [0x0D], js ''Middle Bit 1:30'' @ [0x0D]]"
    by code_simp
  show "parseYouTubeChapters
         (js ''Intro 0:00'' @ [0x0D, 0x0A] @ js ''Middle Bit 1:30'' @ [0x0D, 0x0A]) = []"
    by code_simp
  show "parseYouTubeChapters (js ''0:00 Intro\<newline>1:30 Middle'')
       = [\<lparr>start = Num 0, title = js ''Intro''\<rparr>, \<lparr>start = Num 90, title = js ''Middle''\<rparr>]"
    by code_simp
  show "parseYouTubeChapters
         (js ''0:00 Intro'' @ [0x0D, 0x0A] @ js ''1:30 Middle'' @ [0x0D, 0x0A]) = []"
    by code_simp
qed

text \<open>The line \<^verbatim>\<open>Intro 0:00\<close> keeps its carriage return before CRLF; the
  Lawful line pattern accepts \<^verbatim>\<open>1:30\<close> followed by two blanks and a carriage
  return, with an empty title; and both non-empty lines of \<^verbatim>\<open>Intro 0:00\<close>,
  \<^verbatim>\<open>Middle Bit 1:30\<close>, each ended by CRLF, end in a carriage return.\<close>

theorem C10_crlf_witness:
  "0x0A \<notin> set (js ''Intro 0:00'')
   \<and> split_lf (js ''Intro 0:00'' @ [0x0D, 0x0A] @ js ''Thanks'')
       = (js ''Intro 0:00'' @ [0x0D]) # split_lf (js ''Thanks'')
   \<and> lawfulLine \<in> set [lawfulLine, bracketsLine, parensLine, prefixRx]
   \<and> (\<exists>mt. rx_exec lawfulLine (js ''1:30  '' @ [0x0D]) = Some mt \<and> groups mt 4 = Some [])
   \<and> list_all (\<lambda>l. l \<noteq> [] \<and> last l = 0x0D)
        (skipEmptyLines (js ''Intro 0:00'' @ [0x0D, 0x0A] @ js ''Middle Bit 1:30'' @ [0x0D, 0x0A]))
   \<and> postfixParser (js ''Intro 0:00'' @ [0x0D, 0x0A] @ js ''Middle Bit 1:30'' @ [0x0D, 0x0A]) = []
   \<and> postfixParenParser
        (js ''Intro 0:00'' @ [0x0D, 0x0A] @ js ''Middle Bit 1:30'' @ [0x0D, 0x0A]) = []"
proof -
  have l: "0x0A \<notin> set (js ''Intro 0:00'')"
    by code_simp
  have "rx_test lawfulLine (js ''1:30  '' @ [0x0D])"
    by code_simp
  then obtain mt where mt: "rx_exec lawfulLine (js ''1:30  '' @ [0x0D]) = Some mt"
    by (auto simp: rx_test_def)
  have c: "list_all (\<lambda>l. l \<noteq> [] \<and> last l = 0x0D)
        (skipEmptyLines (js ''Intro 0:00'' @ [0x0D, 0x0A] @ js ''Middle Bit 1:30'' @ [0x0D, 0x0A]))"
    by code_simp
  have r: "lawfulLine \<in> set [lawfulLine, bracketsLine, parensLine, prefixRx]"
    by simp
  from l mt c r
    C10_crlf [where a = "js ''Intro 0:00''" and b = "js ''Thanks''" and rx = lawfulLine
                and line = "js ''1:30  ''" and mt = mt
                and d = "js ''Intro 0:00'' @ [0x0D, 0x0A] @ js ''Middle Bit 1:30'' @ [0x0D, 0x0A]"]
  show ?thesis
    by blast
qed

text \<open>When the two lines \<^verbatim>\<open>Intro 0:00\<close> and \<^verbatim>\<open>Middle Bit 1:30\<close> are only
  joined by CRLF, the last line has no carriage return and is a chapter.\<close>

lemma crlf_joined_last_line:
  "parseYouTubeChapters (join_with [0x0D, 0x0A] [js ''Intro 0:00'', js ''Middle Bit 1:30''])
     = [\<lparr>start = Num 90, title = js ''Middle Bit''\<rparr>]"
  by code_simp

section \<open>Shared state: claim C8\<close>

text \<open>Without the \<^verbatim>\<open>g\<close> and \<^verbatim>\<open>y\<close> flags \<^verbatim>\<open>exec\<close> is the search from
  index 0 and the object comes back unchanged; the same then holds of the
  parsers and of the cascade.\<close>

lemma search_from_0: "search_from rx s 0 = rx_exec rx s"
  by (simp add: search_from_def rx_exec_def before_at_def)

lemma exec_obj_stateless: "stateless R \<Longrightarrow> exec_obj R s = (rx_exec (pattern R) s, R)"
  by (auto simp: exec_obj_def stateless_def Let_def search_from_0 split: option.splits)

lemma test_obj_stateless: "stateless R \<Longrightarrow> test_obj R s = (rx_test (pattern R) s, R)"
  by (simp add: test_obj_def exec_obj_stateless rx_test_def)

lemma findIndex_obj_stateless:
  "stateless R \<Longrightarrow> findIndex_obj R ls = (findIndex (rx_test (pattern R)) ls, R)"
  by (induction ls) (simp_all add: test_obj_stateless)

lemma chapter_loop_obj_stateless:
  "stateless R \<Longrightarrow> chapter_loop_obj R ls acc = (chapter_loop (pattern R) ls acc, R)"
  by (induction ls arbitrary: acc)
     (auto simp: exec_obj_stateless split: option.splits prod.splits)

lemma run_parser_stateless:
  assumes "stateless (start_rx P)" and "stateless (line_rx P)"
  shows "run_parser P d
           = (makeChapterParser (pattern (start_rx P)) (pattern (line_rx P)) ti xi d, P)"
  using assms
  by (simp add: run_parser_def makeChapterParser_def Let_def findIndex_obj_stateless
        chapter_loop_obj_stateless split: option.splits)

lemma new_parser_run:
  "run_parser (new_parser s l) d = (makeChapterParser s l ti xi d, new_parser s l)"
  using run_parser_stateless [of "new_parser s l" d ti xi]
  by (simp add: new_parser_def new_regexp_def stateless_def)

lemma parse_obj_init: "parse_obj module_init d = (parseYouTubeChapters d, module_init)"
proof -
  have "run_parser (new_parser lawfulStart lawfulLine) d
          = (lawfulParser d, new_parser lawfulStart lawfulLine)"
       "run_parser (new_parser bracketsStart bracketsLine) d
          = (bracketsParser d, new_parser bracketsStart bracketsLine)"
       "run_parser (new_parser parensStart parensLine) d
          = (parensParser d, new_parser parensStart parensLine)"
    by (simp_all add: lawfulParser_def bracketsParser_def parensParser_def
          new_parser_run [of _ _ _ 0 3])
  moreover have "run_parser (new_parser (addM postfixRx) postfixRx) d
          = (postfixParser d, new_parser (addM postfixRx) postfixRx)"
       "run_parser (new_parser (addM postfixParenRx) postfixParenRx) d
          = (postfixParenParser d, new_parser (addM postfixParenRx) postfixParenRx)"
    by (simp_all add: postfixParser_def postfixParenParser_def new_parser_run [of _ _ _ 1 0])
  moreover have "run_parser (new_parser (addM prefixRx) prefixRx) d
          = (prefixParser d, new_parser (addM prefixRx) prefixRx)"
    by (simp add: prefixParser_def new_parser_run [of _ _ _ 0 3])
  ultimately show ?thesis
    by (simp add: parse_obj_def module_init_def parseYouTubeChapters_def Let_def)
qed

lemma calls_init: "calls module_init ds = module_init"
  by (induction ds) (simp_all add: calls_def parse_obj_init)

text \<open>With the \<^verbatim>\<open>g\<close> flag the objects of this model do remember the call
  before: a second \<^verbatim>\<open>test\<close> on the same line fails.\<close>

lemma global_flag_is_stateful:
  "fst (test_obj (new_regexp lawfulStart\<lparr>global := True\<rparr>) (js ''0:00 Intro'')) = True
   \<and> fst (test_obj (snd (test_obj (new_regexp lawfulStart\<lparr>global := True\<rparr>) (js ''0:00 Intro'')))
            (js ''0:00 Intro'')) = False"
  by code_simp

text \<open>
  Claim C8. Whatever calls were made before, a call of the exported function on
  a description returns the chapters that the function of the description alone
  determines, \<open>parseYouTubeChapters d\<close>, and leaves the shared pattern objects as
  they were when the module was loaded; so two calls on the same description,
  after any two histories of calls, return equal lists: the same length, and the
  same start and title at every position.
\<close>

theorem C8_no_shared_state:
  "parse_obj (calls module_init prior) d = (parseYouTubeChapters d, module_init)
   \<and> fst (parse_obj (calls module_init prior1) d) = fst (parse_obj (calls module_init prior2) d)
   \<and> list_all2 (\<lambda>a b. start a = start b \<and> title a = title b)
        (fst (parse_obj (calls module_init prior1) d))
        (fst (parse_obj (calls module_init prior2) d))"
  by (simp add: calls_init parse_obj_init list_all2_same)

end
